theory Spec2Isabelle
  imports Main "HOL-Library.Word"
begin

unbundle bit_operations_syntax

section \<open>color.h: the colour value and its operations\<close>

text \<open>
  \<^verbatim>\<open>struct color_t { uint8_t r = 0; uint8_t g = 0; uint8_t b = 0; ... }\<close>
  Three 8-bit channels; the default-constructed colour is black.
\<close>

record color_t =
  r :: "8 word"
  g :: "8 word"
  b :: "8 word"

definition black :: color_t where
  "black = \<lparr>r = 0, g = 0, b = 0\<rparr>"

text \<open>\<^verbatim>\<open>bool operator==(const color_t &c) const\<close>\<close>

definition color_eq :: "color_t \<Rightarrow> color_t \<Rightarrow> bool" where
  "color_eq c d = (r c = r d \<and> g c = g d \<and> b c = b d)"

text \<open>
  \<^verbatim>\<open>void fadeTo(const color_t &c)\<close>: \<open>fadeTo c t\<close> is the value of \<open>c\<close> after
  \<^verbatim>\<open>c.fadeTo(t)\<close>. The three statements run in the source's order; \<open>+ 1\<close> and \<open>- 1\<close>
  are computed on 8-bit words, as the assignment back to \<^verbatim>\<open>uint8_t\<close> truncates.
\<close>

definition fadeTo :: "color_t \<Rightarrow> color_t \<Rightarrow> color_t" where
  "fadeTo c t =
     (let c1 = (if r c \<noteq> r t then c\<lparr>r := (if r c < r t then r c + 1 else r c - 1)\<rparr> else c);
          c2 = (if g c1 \<noteq> g t then c1\<lparr>g := (if g c1 < g t then g c1 + 1 else g c1 - 1)\<rparr> else c1);
          c3 = (if b c2 \<noteq> b t then c2\<lparr>b := (if b c2 < b t then b c2 + 1 else b c2 - 1)\<rparr> else c2)
      in c3)"

text \<open>\<open>n\<close> successive calls of \<^verbatim>\<open>c.fadeTo(t)\<close> with the same target.\<close>

primrec fadeTo_n :: "nat \<Rightarrow> color_t \<Rightarrow> color_t \<Rightarrow> color_t" where
  "fadeTo_n 0 c t = c"
| "fadeTo_n (Suc n) c t = fadeTo_n n (fadeTo c t) t"

text \<open>The distance of one channel from its target, and the largest of the three.\<close>

definition chan_dist :: "8 word \<Rightarrow> 8 word \<Rightarrow> nat" where
  "chan_dist x y = (if unat x < unat y then unat y - unat x else unat x - unat y)"

definition fade_dist :: "color_t \<Rightarrow> color_t \<Rightarrow> nat" where
  "fade_dist c t =
     max (max (chan_dist (r c) (r t)) (chan_dist (g c) (g t))) (chan_dist (b c) (b t))"

text \<open>One channel of \<open>fadeTo\<close>, seen on its own.\<close>

definition chan_step :: "8 word \<Rightarrow> 8 word \<Rightarrow> 8 word" where
  "chan_step x y = (if x \<noteq> y then (if x < y then x + 1 else x - 1) else x)"

text \<open>\<open>between x z y\<close>: \<open>z\<close> lies between the start value \<open>x\<close> and the target \<open>y\<close>, on
  whichever side of the target the start is.\<close>

definition between :: "8 word \<Rightarrow> 8 word \<Rightarrow> 8 word \<Rightarrow> bool" where
  "between x z y = ((x \<le> y \<longrightarrow> x \<le> z \<and> z \<le> y) \<and> (y \<le> x \<longrightarrow> y \<le> z \<and> z \<le> x))"

text \<open>
  Modelled from the spec: the Arduino core's \<^verbatim>\<open>long random(long howbig)\<close> is not part of
  the repository. It returns 0 for \<open>howbig = 0\<close> and otherwise the generator's next raw
  value reduced modulo \<open>howbig\<close>, a value in \<open>[0, howbig)\<close>. The raw value is an explicit
  input here.
\<close>

definition random_arduino :: "nat \<Rightarrow> nat \<Rightarrow> nat" where
  "random_arduino raw howbig = (if howbig = 0 then 0 else raw mod howbig)"

text \<open>\<^verbatim>\<open>static uint8_t getRnd(bool high) { return (uint8_t) random(high ? 256 : 8); }\<close>\<close>

definition getRnd :: "bool \<Rightarrow> nat \<Rightarrow> 8 word" where
  "getRnd high raw = of_nat (random_arduino raw (if high then 256 else 8))"

text \<open>
  \<^verbatim>\<open>void setRandom()\<close> overwrites all three channels, so the result does not depend on the
  old value. It draws four times, in this order: the channel selector, then r, g, b.
\<close>

definition setRandom :: "nat \<Rightarrow> nat \<Rightarrow> nat \<Rightarrow> nat \<Rightarrow> color_t" where
  "setRandom raw0 raw1 raw2 raw3 =
     (let color = random_arduino raw0 3
      in \<lparr>r = getRnd (color = 0) raw1,
          g = getRnd (color = 1) raw2,
          b = getRnd (color = 2) raw3\<rparr>)"

section \<open>main.cpp: constants and enumerations\<close>

definition LED_COUNT :: nat where
  "LED_COUNT = 64"

definition DELAY :: nat where
  "DELAY = 50"

datatype cmd_t = NONE | GET_LEDS | SET_LEDS | SET_LEDS_ALL

fun cmd_val :: "cmd_t \<Rightarrow> int" where
  "cmd_val NONE = 0x00"
| "cmd_val GET_LEDS = 0x01"
| "cmd_val SET_LEDS = 0x02"
| "cmd_val SET_LEDS_ALL = 0x03"

datatype state_t = OK | INVALID_DATA_LENGTH | LED_OUT_OF_RANGE | INVALID_STATE | INVALID_COMMAND

fun state_val :: "state_t \<Rightarrow> int" where
  "state_val OK = 0x00"
| "state_val INVALID_DATA_LENGTH = 0x01"
| "state_val LED_OUT_OF_RANGE = 0x02"
| "state_val INVALID_STATE = 0xFE"
| "state_val INVALID_COMMAND = 0xFF"

text \<open>\<^verbatim>\<open>bool operator==(int data, cmd_t cmd) { return static_cast<int>(cmd) == data; }\<close>,
  applied to a \<^verbatim>\<open>uint8_t\<close> promoted to \<^verbatim>\<open>int\<close>.\<close>

definition data_is :: "8 word \<Rightarrow> cmd_t \<Rightarrow> bool" where
  "data_is data c = (cmd_val c = uint data)"

text \<open>\<^verbatim>\<open>static_cast<cmd_t>(data)\<close>. The source casts only under the guard that \<open>data\<close> is
  one of the three command values; the last branch is never taken there.\<close>

definition cmd_of_data :: "8 word \<Rightarrow> cmd_t" where
  "cmd_of_data data =
     (if data_is data GET_LEDS then GET_LEDS
      else if data_is data SET_LEDS then SET_LEDS
      else if data_is data SET_LEDS_ALL then SET_LEDS_ALL
      else NONE)"

datatype mode_t = OFF | RANDOM | BT

section \<open>The display driver and the globals of main.cpp\<close>

text \<open>
  The globals the handlers write: the strip object \<^verbatim>\<open>leds\<close> and \<^verbatim>\<open>mode\<close>. Of the strip
  the model keeps the pixel buffer in RAM (\<open>pixels\<close>) and what the last \<^verbatim>\<open>show()\<close> sent to
  the physical LEDs (\<open>shown\<close>).
\<close>

record device =
  pixels :: "color_t list"
  shown :: "color_t list"
  mode :: mode_t

text \<open>
  Modelled from the spec: the display driver (the Adafruit_NeoPixel library) is not part of
  the repository. The spec lists its capabilities as \<open>setPixel(index, Color)\<close>, \<open>fill(Color)\<close>,
  \<open>show()\<close> (flush to the physical strip) and \<open>clear()\<close>. The definitions below follow the
  library for an RGB strip with no brightness scaling, as \<^verbatim>\<open>main.cpp\<close> constructs it:
  \<^verbatim>\<open>Color(r, g, b)\<close> packs a colour as \<open>0x00RRGGBB\<close>; \<^verbatim>\<open>setPixelColor\<close> ignores an index
  outside the strip; \<^verbatim>\<open>getPixelColor\<close> returns the packed colour, and 0 outside the strip;
  \<^verbatim>\<open>fill\<close> unpacks the colour into every pixel; \<^verbatim>\<open>clear\<close> zeroes the buffer.
\<close>

definition Color :: "8 word \<Rightarrow> 8 word \<Rightarrow> 8 word \<Rightarrow> 32 word" where
  "Color rr gg bb = push_bit 16 (ucast rr) OR push_bit 8 (ucast gg) OR ucast bb"

definition unpack :: "32 word \<Rightarrow> color_t" where
  "unpack c = \<lparr>r = ucast (drop_bit 16 c), g = ucast (drop_bit 8 c), b = ucast c\<rparr>"

definition setPixelColor :: "nat \<Rightarrow> 8 word \<Rightarrow> 8 word \<Rightarrow> 8 word \<Rightarrow> device \<Rightarrow> device" where
  "setPixelColor n rr gg bb d =
     (if n < length (pixels d) then d\<lparr>pixels := (pixels d)[n := \<lparr>r = rr, g = gg, b = bb\<rparr>]\<rparr>
      else d)"

definition getPixelColor :: "nat \<Rightarrow> device \<Rightarrow> 32 word" where
  "getPixelColor n d =
     (if n < length (pixels d)
      then Color (r (pixels d ! n)) (g (pixels d ! n)) (b (pixels d ! n)) else 0)"

definition fill :: "32 word \<Rightarrow> device \<Rightarrow> device" where
  "fill c d = d\<lparr>pixels := replicate (length (pixels d)) (unpack c)\<rparr>"

definition clear :: "device \<Rightarrow> device" where
  "clear d = d\<lparr>pixels := replicate (length (pixels d)) black\<rparr>"

definition show_leds :: "device \<Rightarrow> device" where
  "show_leds d = d\<lparr>shown := pixels d\<rparr>"

section \<open>main.cpp: the command handlers\<close>

text \<open>
  The handlers take \<^verbatim>\<open>count\<close> by value (an \<^verbatim>\<open>int16_t\<close>, here its integer value) and
  \<^verbatim>\<open>state\<close>, \<^verbatim>\<open>cmd\<close> and \<^verbatim>\<open>ledData\<close> by reference: the model returns the new values,
  together with the globals where the handler writes them. The diagnostic printing is left
  out.
\<close>

definition cmdNone :: "state_t \<Rightarrow> cmd_t \<Rightarrow> 8 word \<Rightarrow> state_t \<times> cmd_t" where
  "cmdNone st c data =
     (if data_is data GET_LEDS \<or> data_is data SET_LEDS \<or> data_is data SET_LEDS_ALL
      then (st, cmd_of_data data)
      else (INVALID_COMMAND, c))"

text \<open>The body of the \<^verbatim>\<open>for\<close> loop of \<^verbatim>\<open>cmdGetLeds\<close> for LED \<open>i\<close>.\<close>

definition get_row :: "device \<Rightarrow> nat \<Rightarrow> 8 word list \<Rightarrow> 8 word list" where
  "get_row d i ld =
     (let color = getPixelColor i d
      in ld[i * 4 := of_nat i,
            i * 4 + 1 := ucast (drop_bit 16 color),
            i * 4 + 2 := ucast (drop_bit 8 color),
            i * 4 + 3 := ucast color])"

definition cmdGetLeds ::
  "int \<Rightarrow> state_t \<Rightarrow> 8 word list \<Rightarrow> 8 word \<Rightarrow> device \<Rightarrow> state_t \<times> 8 word list" where
  "cmdGetLeds cnt st ld data d =
     (if cnt < 0 then (INVALID_STATE, ld)
      else if cnt = 0 \<and> (st = INVALID_DATA_LENGTH \<or> st = OK)
      then (OK, fold (get_row d) [0..<LED_COUNT] ld)
      else (st, ld))"

text \<open>
  \<^verbatim>\<open>cmdSetLeds\<close>. The range check of the source compares \<open>i = count / 4\<close>, the number of
  the group within the frame, with \<^verbatim>\<open>LED_COUNT\<close>; the LED number \<open>n\<close> goes to
  \<^verbatim>\<open>setPixelColor\<close> unchecked.
\<close>

definition cmdSetLeds ::
  "int \<Rightarrow> state_t \<Rightarrow> 8 word list \<Rightarrow> 8 word \<Rightarrow> device
    \<Rightarrow> state_t \<times> 8 word list \<times> device" where
  "cmdSetLeds cnt st ld data d =
     (if cnt < 0 then (INVALID_STATE, ld, d)
      else if cnt < int (LED_COUNT * 4) \<and> (st = INVALID_DATA_LENGTH \<or> st = OK)
      then (let ld1 = ld[nat cnt := data]
            in if cnt mod 4 = 3
               then (let i = nat (cnt div 4);
                         n = ld1 ! (i * 4);
                         rr = ld1 ! (i * 4 + 1);
                         gg = ld1 ! (i * 4 + 2);
                         bb = ld1 ! (i * 4 + 3)
                     in if i \<ge> LED_COUNT then (LED_OUT_OF_RANGE, ld1, d)
                        else (OK, ld1,
                              (show_leds (setPixelColor (unat n) rr gg bb d))\<lparr>mode := BT\<rparr>))
               else (st, ld1, d))
      else (st, ld, d))"

text \<open>
  \<^verbatim>\<open>cmdSetLedsAll\<close>. Every payload byte with \<open>count < 3\<close> is stored and then fills the
  strip from \<open>ledData[0..2]\<close>, whatever those cells hold at that moment.
\<close>

definition cmdSetLedsAll ::
  "int \<Rightarrow> state_t \<Rightarrow> 8 word list \<Rightarrow> 8 word \<Rightarrow> device
    \<Rightarrow> state_t \<times> 8 word list \<times> device" where
  "cmdSetLedsAll cnt st ld data d =
     (if cnt < 0 then (INVALID_STATE, ld, d)
      else if cnt < 3 \<and> (st = INVALID_DATA_LENGTH \<or> st = OK)
      then (let ld1 = ld[nat cnt := data];
                rr = ld1 ! 0;
                gg = ld1 ! 1;
                bb = ld1 ! 2
            in (OK, ld1, (show_leds (fill (Color rr gg bb) d))\<lparr>mode := BT\<rparr>))
      else (st, ld, d))"

section \<open>main.cpp: the drain loop and the response\<close>

text \<open>
  The locals of \<^verbatim>\<open>loop()\<close> that live for one frame. \<^verbatim>\<open>count\<close> is an \<^verbatim>\<open>int16_t\<close>: a
  16-bit word read as two's complement, so that \<^verbatim>\<open>count++\<close> wraps. \<^verbatim>\<open>ledData\<close> is an
  array of \<^verbatim>\<open>LED_COUNT * 4\<close> bytes that the source does not initialise: its first content
  is an input of the model.
\<close>

record frame =
  count :: "16 word"
  cmd :: cmd_t
  state :: state_t
  ledData :: "8 word list"

definition frame_init :: "8 word list \<Rightarrow> frame" where
  "frame_init ld0 = \<lparr>count = - 1, cmd = NONE, state = INVALID_DATA_LENGTH, ledData = ld0\<rparr>"

text \<open>The \<^verbatim>\<open>switch (cmd)\<close> of the loop body, with the fall-through from \<^verbatim>\<open>NONE\<close> into
  \<^verbatim>\<open>GET_LEDS\<close>.\<close>

definition dispatch :: "8 word \<Rightarrow> frame \<Rightarrow> device \<Rightarrow> frame \<times> device" where
  "dispatch data f d =
     (case cmd f of
        NONE \<Rightarrow>
          (case cmdNone (state f) (cmd f) data of
             (st1, c1) \<Rightarrow>
               if c1 \<noteq> GET_LEDS then (f\<lparr>cmd := c1, state := st1\<rparr>, d)
               else (case cmdGetLeds (sint (0 :: 16 word)) st1 (ledData f) data d of
                       (st2, ld2) \<Rightarrow>
                         (f\<lparr>count := 0, cmd := c1, state := st2, ledData := ld2\<rparr>, d)))
      | GET_LEDS \<Rightarrow>
          (case cmdGetLeds (sint (count f)) (state f) (ledData f) data d of
             (st2, ld2) \<Rightarrow> (f\<lparr>state := st2, ledData := ld2\<rparr>, d))
      | SET_LEDS \<Rightarrow>
          (case cmdSetLeds (sint (count f)) (state f) (ledData f) data d of
             (st2, ld2, d2) \<Rightarrow> (f\<lparr>state := st2, ledData := ld2\<rparr>, d2))
      | SET_LEDS_ALL \<Rightarrow>
          (case cmdSetLedsAll (sint (count f)) (state f) (ledData f) data d of
             (st2, ld2, d2) \<Rightarrow> (f\<lparr>state := st2, ledData := ld2\<rparr>, d2)))"

text \<open>One iteration of the loop for a byte that was read: the dispatch, then \<^verbatim>\<open>count++\<close>.\<close>

definition step :: "8 word \<Rightarrow> frame \<Rightarrow> device \<Rightarrow> frame \<times> device" where
  "step data f d = (case dispatch data f d of (f1, d1) \<Rightarrow> (f1\<lparr>count := count f1 + 1\<rparr>, d1))"

text \<open>
  \<^verbatim>\<open>while (btSer.available()) { auto data = btSer.read(); ... }\<close> over the values that
  \<^verbatim>\<open>read()\<close> returns while bytes are available. A negative value makes \<^verbatim>\<open>loop()\<close> return at
  once: no frame is left to answer (\<open>None\<close>), and what the handlers wrote so far stays.
\<close>

fun drain :: "int list \<Rightarrow> frame \<Rightarrow> device \<Rightarrow> frame option \<times> device" where
  "drain [] f d = (Some f, d)"
| "drain (x # xs) f d =
     (if x < 0 then (None, d)
      else (case step (word_of_int x) f d of (f1, d1) \<Rightarrow> drain xs f1 d1))"

text \<open>The bytes \<^verbatim>\<open>btRespond\<close> writes to the serial link; \<open>None\<close> stands for \<^verbatim>\<open>nullptr\<close>.\<close>

definition btRespond :: "cmd_t \<Rightarrow> state_t \<Rightarrow> 8 word list option \<Rightarrow> nat \<Rightarrow> 8 word list" where
  "btRespond c st data len =
     [word_of_int (cmd_val c), word_of_int (state_val st)] @
     (case data of None \<Rightarrow> [] | Some bs \<Rightarrow> take len bs)"

text \<open>The end of \<^verbatim>\<open>loop()\<close>: what is written back for a drained frame, if anything.\<close>

definition respond :: "frame \<Rightarrow> 8 word list option" where
  "respond f =
     (if state f = OK
      then (case cmd f of
              NONE \<Rightarrow> None
            | GET_LEDS \<Rightarrow> Some (btRespond (cmd f) (state f) (Some (ledData f)) (LED_COUNT * 4))
            | SET_LEDS \<Rightarrow> Some (btRespond (cmd f) (state f) None 0)
            | SET_LEDS_ALL \<Rightarrow> Some (btRespond (cmd f) (state f) None 0))
      else Some (btRespond (cmd f) (state f) None 0))"

text \<open>The serial part of \<^verbatim>\<open>loop()\<close>, from \<^verbatim>\<open>if (!btSer.available()) return;\<close> on.\<close>

definition bt_poll :: "int list \<Rightarrow> 8 word list \<Rightarrow> device \<Rightarrow> device \<times> 8 word list option" where
  "bt_poll reads ld0 d =
     (if reads = [] then (d, None)
      else (case drain reads (frame_init ld0) d of
              (None, d1) \<Rightarrow> (d1, None)
            | (Some f, d1) \<Rightarrow> (d1, respond f)))"

section \<open>Button.cpp\<close>

datatype button_state = RELEASED | PRESSED | PRESSED_CONTINUOUSLY

text \<open>
  The function-local statics of \<^verbatim>\<open>Button::read\<close>. \<^verbatim>\<open>read\<close> is initialised with
  \<^verbatim>\<open>millis()\<close> when the first call reaches it.
\<close>

record button_static =
  read :: "32 word"
  wasPressed :: bool
  mayReturn :: bool

definition button_static_init :: "32 word \<Rightarrow> button_static" where
  "button_static_init now = \<lparr>read = now, wasPressed = False, mayReturn = True\<rparr>"

text \<open>
  \<^verbatim>\<open>Button::read\<close>. \<open>pressed\<close> is \<^verbatim>\<open>!digitalRead(pin)\<close> and \<open>now\<close> the value of
  \<^verbatim>\<open>millis()\<close>, taken to be the same for the two calls within one \<^verbatim>\<open>read\<close>; the
  subtraction is on \<^verbatim>\<open>uint32_t\<close>.
\<close>

definition Button_read ::
  "bool \<Rightarrow> 32 word \<Rightarrow> button_static \<Rightarrow> button_state \<times> button_static" where
  "Button_read pressed now bs =
     (if now - read bs > 200
      then (let bs1 = bs\<lparr>read := now\<rparr>;
                returnValue =
                  (if wasPressed bs1
                   then (if pressed then PRESSED_CONTINUOUSLY else PRESSED)
                   else RELEASED);
                bs2 = (if pressed \<and> \<not> wasPressed bs1 then bs1\<lparr>wasPressed := True\<rparr>
                       else if \<not> pressed then bs1\<lparr>wasPressed := False\<rparr>
                       else bs1)
            in if mayReturn bs2 \<and> returnValue \<noteq> RELEASED
               then (returnValue, bs2\<lparr>mayReturn := False\<rparr>)
               else if returnValue = RELEASED
               then (RELEASED, bs2\<lparr>mayReturn := True\<rparr>)
               else (RELEASED, bs2))
      else (RELEASED, bs))"

section \<open>main.cpp: randomColors\<close>

record anim_static =
  current :: "color_t list"
  target :: "color_t list"
  delay :: "32 word"

definition anim_static_init :: anim_static where
  "anim_static_init =
     \<lparr>current = replicate LED_COUNT black, target = replicate LED_COUNT black, delay = 0\<rparr>"

text \<open>
  The body of the \<^verbatim>\<open>for\<close> loop of \<^verbatim>\<open>randomColors\<close> for LED \<open>i\<close>. The generator is a
  sequence \<open>rnd\<close> of raw values and the position \<open>pos\<close> of the next one; \<^verbatim>\<open>setRandom\<close> takes
  four of them.
\<close>

definition random_pixel ::
  "(nat \<Rightarrow> nat) \<Rightarrow> nat \<Rightarrow> anim_static \<times> nat \<times> device \<Rightarrow> anim_static \<times> nat \<times> device" where
  "random_pixel rnd i = (\<lambda>(a, pos, d).
     (let (tgt, pos1) =
            (if color_eq (current a ! i) (target a ! i)
             then (setRandom (rnd pos) (rnd (pos + 1)) (rnd (pos + 2)) (rnd (pos + 3)), pos + 4)
             else (target a ! i, pos));
          cur = fadeTo (current a ! i) tgt
      in (a\<lparr>current := (current a)[i := cur], target := (target a)[i := tgt]\<rparr>,
          pos1,
          setPixelColor i (r cur) (g cur) (b cur) d)))"

definition randomColors ::
  "32 word \<Rightarrow> (nat \<Rightarrow> nat) \<Rightarrow> anim_static \<times> nat \<times> device \<Rightarrow> anim_static \<times> nat \<times> device" where
  "randomColors now rnd = (\<lambda>(a, pos, d).
     (if \<not> (delay a = 0 \<or> now - delay a > of_nat DELAY) then (a, pos, d)
      else (case fold (random_pixel rnd) [0..<LED_COUNT] (a\<lparr>delay := now\<rparr>, pos, d) of
              (a1, pos1, d1) \<Rightarrow> (a1, pos1, show_leds d1))))"

section \<open>main.cpp: loop\<close>

text \<open>
  All the state that outlives one call of \<^verbatim>\<open>loop()\<close>, and what one call reports: whether
  it went through the sleep branch, and the bytes written to the serial link.
\<close>

record firmware =
  dev :: device
  button :: button_static
  anim :: anim_static
  rnd_pos :: nat

record tick_out =
  slept :: bool
  response :: "8 word list option"

text \<open>The first \<^verbatim>\<open>switch\<close> of \<^verbatim>\<open>loop()\<close>: what a button event does to \<^verbatim>\<open>mode\<close>.\<close>

definition loop_button :: "button_state \<Rightarrow> mode_t \<Rightarrow> mode_t" where
  "loop_button ev m =
     (case ev of PRESSED \<Rightarrow> RANDOM | PRESSED_CONTINUOUSLY \<Rightarrow> OFF | RELEASED \<Rightarrow> m)"

text \<open>
  The second \<^verbatim>\<open>switch\<close>. In \<^verbatim>\<open>OFF\<close> the strip is cleared and shown and the processor
  sleeps until the button interrupt; the interrupt routine and the code after the wake-up
  both set \<^verbatim>\<open>mode = RANDOM\<close>. The model takes the wake-up as given.
\<close>

definition loop_mode :: "32 word \<Rightarrow> (nat \<Rightarrow> nat) \<Rightarrow> firmware \<Rightarrow> firmware \<times> bool" where
  "loop_mode now rnd fw =
     (case mode (dev fw) of
        OFF \<Rightarrow> (fw\<lparr>dev := (show_leds (clear (dev fw)))\<lparr>mode := RANDOM\<rparr>\<rparr>, True)
      | RANDOM \<Rightarrow>
          (case randomColors now rnd (anim fw, rnd_pos fw, dev fw) of
             (a1, pos1, d1) \<Rightarrow> (fw\<lparr>dev := d1, anim := a1, rnd_pos := pos1\<rparr>, False))
      | BT \<Rightarrow> (fw, False))"

text \<open>
  One call of \<^verbatim>\<open>loop()\<close>: the button level and the clock, the generator, the values
  \<^verbatim>\<open>btSer.read()\<close> returns while bytes are available, and the first content of
  \<^verbatim>\<open>ledData\<close>.
\<close>

definition loop ::
  "bool \<Rightarrow> 32 word \<Rightarrow> (nat \<Rightarrow> nat) \<Rightarrow> int list \<Rightarrow> 8 word list \<Rightarrow> firmware
    \<Rightarrow> firmware \<times> tick_out" where
  "loop pressed now rnd reads ld0 fw =
     (case Button_read pressed now (button fw) of
        (ev, bs1) \<Rightarrow>
          (let fw1 = fw\<lparr>button := bs1,
                        dev := (dev fw)\<lparr>mode := loop_button ev (mode (dev fw))\<rparr>\<rparr>
           in (case loop_mode now rnd fw1 of
                 (fw2, sl) \<Rightarrow>
                   (case bt_poll reads ld0 (dev fw2) of
                      (d3, resp) \<Rightarrow> (fw2\<lparr>dev := d3\<rparr>, \<lparr>slept = sl, response = resp\<rparr>)))))"

section \<open>Notions used to state the properties\<close>

text \<open>
  The strip after \<^verbatim>\<open>setup()\<close>: \<^verbatim>\<open>leds.begin()\<close> allocates a zeroed buffer of
  \<^verbatim>\<open>LED_COUNT\<close> pixels, and \<^verbatim>\<open>mode\<close> starts as \<^verbatim>\<open>RANDOM\<close>.
\<close>

definition dev_boot :: device where
  "dev_boot =
     \<lparr>pixels = replicate LED_COUNT black, shown = replicate LED_COUNT black, mode = RANDOM\<rparr>"

text \<open>The quadruple (index, r, g, b) of LED \<open>i\<close>, and the quadruples of all LEDs in
  ascending index order.\<close>

definition row :: "device \<Rightarrow> nat \<Rightarrow> 8 word list" where
  "row d i = [of_nat i, r (pixels d ! i), g (pixels d ! i), b (pixels d ! i)]"

definition snapshot :: "device \<Rightarrow> 8 word list" where
  "snapshot d = concat (map (row d) [0..<LED_COUNT])"

text \<open>The drain loop over bytes that were all read successfully.\<close>

fun run :: "8 word list \<Rightarrow> frame \<Rightarrow> device \<Rightarrow> frame \<times> device" where
  "run [] f d = (f, d)"
| "run (x # xs) f d = (case step x f d of (f1, d1) \<Rightarrow> run xs f1 d1)"

text \<open>The first byte of a frame that is a command tag, as a command; \<open>NONE\<close> if there is
  none.\<close>

fun first_tag :: "8 word list \<Rightarrow> cmd_t" where
  "first_tag [] = NONE"
| "first_tag (x # xs) = (if x = 1 \<or> x = 2 \<or> x = 3 then cmd_of_data x else first_tag xs)"

text \<open>
  Invariants of the drain loop. \<open>frame_inv\<close>: the sizes of the two buffers, a status
  \<^verbatim>\<open>OK\<close> only with a command, and the snapshot in \<^verbatim>\<open>ledData\<close> once \<^verbatim>\<open>GET_LEDS\<close> is
  \<^verbatim>\<open>OK\<close>. \<open>err_state\<close>: the two statuses a frame with a bad first byte can end in.
  \<open>cnt_ok k\<close>: the byte counter after \<open>k\<close> bytes, while it cannot have wrapped.
\<close>

definition frame_inv :: "frame \<Rightarrow> device \<Rightarrow> bool" where
  "frame_inv f d =
     (length (ledData f) = LED_COUNT * 4 \<and> length (pixels d) = LED_COUNT \<and>
      (state f = OK \<longrightarrow> cmd f \<noteq> NONE) \<and>
      (cmd f = GET_LEDS \<and> state f = OK \<longrightarrow> ledData f = snapshot d))"

definition err_state :: "state_t \<Rightarrow> bool" where
  "err_state st = (st = INVALID_COMMAND \<or> st = INVALID_STATE)"

definition cnt_ok :: "nat \<Rightarrow> frame \<Rightarrow> bool" where
  "cnt_ok k f = ((cmd f = NONE \<or> 0 \<le> sint (count f)) \<and> - 1 \<le> sint (count f) \<and>
                 sint (count f) \<le> int k \<and> k \<le> 32767)"

text \<open>
  A \<^verbatim>\<open>SET_LEDS\<close> payload as a list of groups (index, r, g, b): its bytes on the wire, what
  one accepted group does to the globals, and the colour of the last group of a sequence that
  names LED \<open>i\<close>, if any.
\<close>

type_synonym group = "8 word \<times> 8 word \<times> 8 word \<times> 8 word"

definition encode :: "group list \<Rightarrow> 8 word list" where
  "encode gs = concat (map (\<lambda>(n, rr, gg, bb). [n, rr, gg, bb]) gs)"

definition write_group :: "group \<Rightarrow> device \<Rightarrow> device" where
  "write_group =
     (\<lambda>(n, rr, gg, bb) d. (show_leds (setPixelColor (unat n) rr gg bb d))\<lparr>mode := BT\<rparr>)"

definition last_write :: "group list \<Rightarrow> nat \<Rightarrow> color_t option" where
  "last_write gs i =
     map_of (rev (map (\<lambda>(n, rr, gg, bb). (unat n, \<lparr>r = rr, g = gg, b = bb\<rparr>)) gs)) i"

definition chans :: "color_t \<Rightarrow> 8 word list" where
  "chans c = [r c, g c, b c]"

text \<open>The globals after one call of \<^verbatim>\<open>loop()\<close> that drains the \<^verbatim>\<open>SET_LEDS\<close> frame with
  the groups \<open>gs\<close>, \<open>ld0\<close> being the first content of \<^verbatim>\<open>ledData\<close>.\<close>

definition set_leds_frame :: "8 word list \<times> group list \<Rightarrow> device \<Rightarrow> device" where
  "set_leds_frame = (\<lambda>(ld0, gs) d. fst (bt_poll (map uint (2 # encode gs)) ld0 d))"

text \<open>
  Successive calls of \<^verbatim>\<open>Button::read\<close>, each with the raw level and the time of the call,
  and the events they return. \<open>windowed t0 cs\<close>: every call of \<open>cs\<close> comes more than 200 ms
  (on the 32-bit clock) after the evaluation before it, the first after \<open>t0\<close>.
\<close>

fun button_run ::
  "(bool \<times> 32 word) list \<Rightarrow> button_static \<Rightarrow> button_state list \<times> button_static" where
  "button_run [] bs = ([], bs)"
| "button_run ((p, t) # cs) bs =
     (case Button_read p t bs of
        (ev, bs1) \<Rightarrow> (case button_run cs bs1 of (evs, bs2) \<Rightarrow> (ev # evs, bs2)))"

fun windowed :: "32 word \<Rightarrow> (bool \<times> 32 word) list \<Rightarrow> bool" where
  "windowed t0 [] = True"
| "windowed t0 ((p, t) # cs) = (200 < t - t0 \<and> windowed t cs)"

text \<open>The evaluation at a window boundary, on the pair (\<open>wasPressed\<close>, \<open>mayReturn\<close>) alone;
  used in the proofs about sequences of windows.\<close>

definition win :: "bool \<Rightarrow> bool \<times> bool \<Rightarrow> button_state \<times> (bool \<times> bool)" where
  "win p = (\<lambda>(w, m).
     (let rv = (if w then (if p then PRESSED_CONTINUOUSLY else PRESSED) else RELEASED)
      in if m \<and> rv \<noteq> RELEASED then (rv, (p, False))
         else if rv = RELEASED then (RELEASED, (p, True))
         else (RELEASED, (p, m))))"

fun win_run :: "bool list \<Rightarrow> bool \<times> bool \<Rightarrow> button_state list \<times> (bool \<times> bool)" where
  "win_run [] wm = ([], wm)"
| "win_run (p # ps) wm =
     (case win p wm of (ev, wm1) \<Rightarrow> (case win_run ps wm1 of (evs, wm2) \<Rightarrow> (ev # evs, wm2)))"

text \<open>The firmware after \<^verbatim>\<open>setup()\<close>, the first call of \<^verbatim>\<open>Button::read\<close> being at time
  \<open>t\<close>.\<close>

definition fw_boot :: "32 word \<Rightarrow> firmware" where
  "fw_boot t =
     \<lparr>dev = dev_boot, button = button_static_init t, anim = anim_static_init, rnd_pos = 0\<rparr>"

section \<open>Properties of fadeTo\<close>

lemma fadeTo_chan:
  "r (fadeTo c t) = chan_step (r c) (r t)"
  "g (fadeTo c t) = chan_step (g c) (g t)"
  "b (fadeTo c t) = chan_step (b c) (b t)"
  by (simp_all add: fadeTo_def chan_step_def Let_def)

lemma unat_chan_step:
  "unat (chan_step x y) =
     (if unat x < unat y then unat x + 1 else if unat y < unat x then unat x - 1 else unat x)"
proof -
  have lt: "unat x < 256" "unat y < 256"
    using unsigned_less [of x, where ?'a = nat] unsigned_less [of y, where ?'a = nat]
    by simp_all
  have up: "unat (x + 1) = unat x + 1" if "unat x < unat y"
  proof -
    have "unat x + unat (1 :: 8 word) < 2 ^ LENGTH(8)" using that lt by simp
    then have "unat (x + 1) = unat x + unat (1 :: 8 word)" by (simp only: unat_add_lem)
    then show ?thesis by simp
  qed
  have down: "unat (x - 1) = unat x - 1" if "unat y < unat x"
  proof -
    have "(1 :: 8 word) \<le> x" using that by (simp add: word_le_nat_alt)
    then have "unat (x - 1) = unat x - unat (1 :: 8 word)" by (rule unat_sub)
    then show ?thesis by simp
  qed
  have eq: "x = y" if "\<not> unat x < unat y" "\<not> unat y < unat x"
    using that by (simp add: word_unat_eq_iff)
  show ?thesis
    unfolding chan_step_def using up down eq
    by (auto simp: word_less_nat_alt)
qed

lemma chan_dist_step: "chan_dist (chan_step x y) y = chan_dist x y - 1"
  unfolding chan_dist_def unat_chan_step by auto

lemma chan_dist_0: "chan_dist x y = 0 \<longleftrightarrow> x = y"
  unfolding chan_dist_def by (auto simp: word_unat_eq_iff)

lemma fade_dist_step: "fade_dist (fadeTo c t) t = fade_dist c t - 1"
  unfolding fade_dist_def fadeTo_chan chan_dist_step by auto

lemma color_eq_iff: "color_eq c d \<longleftrightarrow> c = d"
  by (cases c, cases d) (simp add: color_eq_def)

lemma fade_dist_0: "fade_dist c t = 0 \<longleftrightarrow> c = t"
  unfolding fade_dist_def by (cases c, cases t) (auto simp: chan_dist_0)

lemma fade_dist_n: "fade_dist (fadeTo_n n c t) t = fade_dist c t - n"
  by (induction n arbitrary: c) (simp_all add: fade_dist_step)

lemma fadeTo_n_eq_iff: "fadeTo_n n c t = t \<longleftrightarrow> fade_dist c t \<le> n"
  using fade_dist_0 [of "fadeTo_n n c t" t] by (simp add: fade_dist_n)

lemma chan_step_between:
  "(x \<le> y \<longrightarrow> x \<le> chan_step x y \<and> chan_step x y \<le> y) \<and>
   (y \<le> x \<longrightarrow> y \<le> chan_step x y \<and> chan_step x y \<le> x)"
  by (auto simp: word_le_nat_alt unat_chan_step)

lemma between_refl: "between x x y"
  by (simp add: between_def)

lemma between_step: "between x z y \<Longrightarrow> between x (chan_step z y) y"
  using chan_step_between [of z y] unfolding between_def by auto

lemma fadeTo_n_Suc: "fadeTo_n (Suc n) c t = fadeTo (fadeTo_n n c t) t"
  by (induction n arbitrary: c) simp_all

lemma fadeTo_n_between:
  "between (r c) (r (fadeTo_n n c t)) (r t) \<and>
   between (g c) (g (fadeTo_n n c t)) (g t) \<and>
   between (b c) (b (fadeTo_n n c t)) (b t)"
proof (induction n)
  case 0
  show ?case by (simp add: between_refl)
next
  case (Suc n)
  then show ?case
    by (simp only: fadeTo_n_Suc fadeTo_chan between_step)
qed

text \<open>
  C7. Iterating \<open>fadeTo\<close> with a fixed target \<open>t\<close> from any colour \<open>c\<close>: after \<open>n\<close> calls the
  colour equals the target exactly when \<open>n\<close> is at least the largest channel distance
  \<open>max(|t.r - c.r|, |t.g - c.g|, |t.b - c.b|)\<close>, so the target is reached within that many
  calls (and kept). Each call moves each channel by exactly one unit towards its target
  channel and leaves an equal channel alone, with no 8-bit wrap-around. After any number
  of calls every channel lies between its start value and its target: no overshoot.
\<close>

theorem fadeTo_converges:
  "(color_eq (fadeTo_n n c t) t \<longleftrightarrow> fade_dist c t \<le> n) \<and>
   color_eq (fadeTo_n (fade_dist c t) c t) t \<and>
   unat (r (fadeTo c t)) =
     (if unat (r c) < unat (r t) then unat (r c) + 1
      else if unat (r t) < unat (r c) then unat (r c) - 1 else unat (r c)) \<and>
   unat (g (fadeTo c t)) =
     (if unat (g c) < unat (g t) then unat (g c) + 1
      else if unat (g t) < unat (g c) then unat (g c) - 1 else unat (g c)) \<and>
   unat (b (fadeTo c t)) =
     (if unat (b c) < unat (b t) then unat (b c) + 1
      else if unat (b t) < unat (b c) then unat (b c) - 1 else unat (b c)) \<and>
   between (r c) (r (fadeTo_n n c t)) (r t) \<and>
   between (g c) (g (fadeTo_n n c t)) (g t) \<and>
   between (b c) (b (fadeTo_n n c t)) (b t)"
proof -
  have "color_eq (fadeTo_n n c t) t \<longleftrightarrow> fade_dist c t \<le> n"
    by (simp add: color_eq_iff fadeTo_n_eq_iff)
  moreover have "color_eq (fadeTo_n (fade_dist c t) c t) t"
    by (simp add: color_eq_iff fadeTo_n_eq_iff)
  moreover note fadeTo_n_between [of c n t]
  ultimately show ?thesis
    by (simp only: fadeTo_chan unat_chan_step simp_thms)
qed

theorem fadeTo_converges_witness:
  "fade_dist \<lparr>r = 10, g = 20, b = 30\<rparr> \<lparr>r = 12, g = 20, b = 27\<rparr> \<le> 3 \<and>
   color_eq (fadeTo_n 3 \<lparr>r = 10, g = 20, b = 30\<rparr> \<lparr>r = 12, g = 20, b = 27\<rparr>)
     \<lparr>r = 12, g = 20, b = 27\<rparr> \<and>
   between 30 (b (fadeTo_n 3 \<lparr>r = 10, g = 20, b = 30\<rparr> \<lparr>r = 12, g = 20, b = 27\<rparr>)) 27"
proof -
  have d: "fade_dist \<lparr>r = 10, g = 20, b = 30\<rparr> \<lparr>r = 12, g = 20, b = 27\<rparr> \<le> 3"
    by (simp add: fade_dist_def chan_dist_def)
  from d fadeTo_converges [of 3 "\<lparr>r = 10, g = 20, b = 30\<rparr>" "\<lparr>r = 12, g = 20, b = 27\<rparr>"]
  show ?thesis by simp
qed

section \<open>Properties of setRandom\<close>

text \<open>
  C5 (as amended). Where the current colour of pixel \<open>i\<close> equals its target,
  \<^verbatim>\<open>randomColors\<close> replaces the target by \<open>setRandom\<close> of the next four raw draws, and
  leaves it alone otherwise. In the new target the one channel selected by the first draw
  (\<open>random(3)\<close>) is drawn from the wide range \<open>[0,256)\<close>; the other two channels are drawn
  from the narrow range \<open>[0,8)\<close>.
\<close>

theorem setRandom_ranges:
  "target (fst (random_pixel rnd i (a, pos, d))) =
     (target a)[i := (if color_eq (current a ! i) (target a ! i)
                      then setRandom (rnd pos) (rnd (pos + 1)) (rnd (pos + 2)) (rnd (pos + 3))
                      else target a ! i)] \<and>
   random_arduino raw0 3 < 3 \<and>
   unat (r (setRandom raw0 raw1 raw2 raw3)) =
     raw1 mod (if random_arduino raw0 3 = 0 then 256 else 8) \<and>
   unat (g (setRandom raw0 raw1 raw2 raw3)) =
     raw2 mod (if random_arduino raw0 3 = 1 then 256 else 8) \<and>
   unat (b (setRandom raw0 raw1 raw2 raw3)) =
     raw3 mod (if random_arduino raw0 3 = 2 then 256 else 8)"
proof -
  have "target (fst (random_pixel rnd i (a, pos, d))) =
     (target a)[i := (if color_eq (current a ! i) (target a ! i)
                      then setRandom (rnd pos) (rnd (pos + 1)) (rnd (pos + 2)) (rnd (pos + 3))
                      else target a ! i)]"
    by (simp add: random_pixel_def Let_def)
  moreover have "random_arduino raw0 3 < 3"
    by (simp add: random_arduino_def)
  moreover have "unat (r (setRandom raw0 raw1 raw2 raw3)) =
     raw1 mod (if random_arduino raw0 3 = 0 then 256 else 8)"
    by (simp add: setRandom_def getRnd_def random_arduino_def unat_of_nat Let_def)
  moreover have "unat (g (setRandom raw0 raw1 raw2 raw3)) =
     raw2 mod (if random_arduino raw0 3 = 1 then 256 else 8)"
    by (simp add: setRandom_def getRnd_def random_arduino_def unat_of_nat Let_def)
  moreover have "unat (b (setRandom raw0 raw1 raw2 raw3)) =
     raw3 mod (if random_arduino raw0 3 = 2 then 256 else 8)"
    by (simp add: setRandom_def getRnd_def random_arduino_def unat_of_nat Let_def)
  ultimately show ?thesis by blast
qed

text \<open>
  With the draws 0, 200, 200, 200 the selected channel is red: it takes the value 200,
  outside \<open>[0,8)\<close>, while green and blue are reduced into \<open>[0,8)\<close>.
\<close>

theorem setRandom_dominant_counterexample:
  "random_arduino 0 3 = 0 \<and>
   unat (r (setRandom 0 200 200 200)) = 200 \<and>
   unat (g (setRandom 0 200 200 200)) = 0 \<and>
   unat (b (setRandom 0 200 200 200)) = 0"
  by (simp add: setRandom_def getRnd_def random_arduino_def)

section \<open>Properties of the protocol: the response\<close>

lemma Color_r: "ucast (drop_bit 16 (Color a bb c)) = a"
  unfolding Color_def
  by (rule bit_word_eqI) (auto simp add: bit_simps dest: bit_imp_le_length)

lemma Color_g: "ucast (drop_bit 8 (Color a bb c)) = bb"
  unfolding Color_def
  by (rule bit_word_eqI) (auto simp add: bit_simps dest: bit_imp_le_length)

lemma Color_b: "ucast (Color a bb c) = c"
  unfolding Color_def
  by (rule bit_word_eqI) (auto simp add: bit_simps dest: bit_imp_le_length)

lemma unpack_Color: "unpack (Color a bb c) = \<lparr>r = a, g = bb, b = c\<rparr>"
  by (simp add: unpack_def Color_r Color_g Color_b)

lemma upd4:
  assumes "4 \<le> length zs"
  shows "zs[0 := a, 1 := b1, 2 := c, 3 := e] = [a, b1, c, e] @ drop 4 zs"
proof -
  obtain z0 zs1 where 1: "zs = z0 # zs1" using assms by (cases zs) auto
  obtain z1 zs2 where 2: "zs1 = z1 # zs2" using assms 1 by (cases zs1) auto
  obtain z2 zs3 where 3: "zs2 = z2 # zs3" using assms 1 2 by (cases zs2) auto
  obtain z3 zs4 where 4: "zs3 = z3 # zs4" using assms 1 2 3 by (cases zs3) auto
  show ?thesis by (simp add: 1 2 3 4)
qed

lemma length_row: "length (row d i) = 4"
  by (simp add: row_def)

lemma length_concat_rows: "length (concat (map (row d) [0..<n])) = 4 * n"
  by (induction n) (simp_all add: length_row)

lemma get_row_eq:
  "i < length (pixels d) \<Longrightarrow>
   get_row d i ld =
     ld[i * 4 := of_nat i, i * 4 + 1 := r (pixels d ! i), i * 4 + 2 := g (pixels d ! i),
        i * 4 + 3 := b (pixels d ! i)]"
  by (simp add: get_row_def getPixelColor_def Color_r Color_g Color_b Let_def)

lemma get_row_append:
  assumes "i < length (pixels d)" "length xs = 4 * i" "4 \<le> length zs"
  shows "get_row d i (xs @ zs) = xs @ row d i @ drop 4 zs"
proof -
  have "get_row d i (xs @ zs) =
      xs @ zs[0 := of_nat i, 1 := r (pixels d ! i), 2 := g (pixels d ! i), 3 := b (pixels d ! i)]"
    using assms(2) by (simp add: get_row_eq [OF assms(1)] list_update_append mult.commute)
  then show ?thesis
    by (simp only: upd4 [OF assms(3)] row_def)
qed

lemma fold_get_row:
  "n \<le> length (pixels d) \<Longrightarrow> 4 * n \<le> length ld \<Longrightarrow>
   fold (get_row d) [0..<n] ld = concat (map (row d) [0..<n]) @ drop (4 * n) ld"
proof (induction n)
  case 0
  show ?case by simp
next
  case (Suc n)
  have len: "4 \<le> length (drop (4 * n) ld)" using Suc.prems by simp
  have "fold (get_row d) [0..<Suc n] ld = get_row d n (fold (get_row d) [0..<n] ld)"
    by simp
  also have "\<dots> = get_row d n (concat (map (row d) [0..<n]) @ drop (4 * n) ld)"
    using Suc by simp
  also have "\<dots> = concat (map (row d) [0..<n]) @ row d n @ drop 4 (drop (4 * n) ld)"
    using Suc.prems by (intro get_row_append len) (simp_all add: length_concat_rows)
  finally show ?case by (simp add: add.commute)
qed

lemma length_get_row: "length (get_row d i ld) = length ld"
  by (simp add: get_row_def Let_def)

lemma length_fold_get_row: "length (fold (get_row d) xs ld) = length ld"
  by (induction xs arbitrary: ld) (simp_all add: length_get_row)

lemma cmdGetLeds_snapshot:
  "length (pixels d) = LED_COUNT \<Longrightarrow> length ld = LED_COUNT * 4 \<Longrightarrow>
   fold (get_row d) [0..<LED_COUNT] ld = snapshot d"
  using fold_get_row [of LED_COUNT d ld] by (simp add: snapshot_def)

lemma length_snapshot: "length (snapshot d) = LED_COUNT * 4"
  by (simp add: snapshot_def length_concat_rows)

lemma data_is_simps:
  "data_is data GET_LEDS \<longleftrightarrow> data = 1"
  "data_is data SET_LEDS \<longleftrightarrow> data = 2"
  "data_is data SET_LEDS_ALL \<longleftrightarrow> data = 3"
  "data_is data NONE \<longleftrightarrow> data = 0"
  by (auto simp: data_is_def word_uint_eq_iff)

lemma cmdNone_simps:
  "cmdNone st c data =
     (if data = 1 then (st, GET_LEDS) else if data = 2 then (st, SET_LEDS)
      else if data = 3 then (st, SET_LEDS_ALL) else (INVALID_COMMAND, c))"
  by (simp add: cmdNone_def cmd_of_data_def data_is_simps)

lemma length_pixels_simps [simp]:
  "length (pixels (setPixelColor n rr gg bb d)) = length (pixels d)"
  "length (pixels (fill c d)) = length (pixels d)"
  "length (pixels (clear d)) = length (pixels d)"
  "length (pixels (show_leds d)) = length (pixels d)"
  by (simp_all add: setPixelColor_def fill_def clear_def show_leds_def)

lemma step_inv:
  assumes "frame_inv f d" "step data f d = (f1, d1)"
  shows "frame_inv f1 d1"
proof (cases "cmd f")
  case NONE
  then show ?thesis
    using assms
    by (auto simp: frame_inv_def step_def dispatch_def cmdNone_simps cmdGetLeds_def
        cmdGetLeds_snapshot length_fold_get_row length_snapshot split: if_splits)
next
  case GET_LEDS
  then show ?thesis
    using assms
    by (auto simp: frame_inv_def step_def dispatch_def cmdGetLeds_def
        cmdGetLeds_snapshot length_fold_get_row length_snapshot split: if_splits)
next
  case SET_LEDS
  then show ?thesis
    using assms
    by (auto simp: frame_inv_def step_def dispatch_def cmdSetLeds_def Let_def
        split: if_splits)
next
  case SET_LEDS_ALL
  then show ?thesis
    using assms
    by (auto simp: frame_inv_def step_def dispatch_def cmdSetLedsAll_def Let_def
        split: if_splits)
qed

lemma frame_inv_init:
  "length ld0 = LED_COUNT * 4 \<Longrightarrow> length (pixels d) = LED_COUNT \<Longrightarrow> frame_inv (frame_init ld0) d"
  by (simp add: frame_inv_def frame_init_def)

lemma drain_uint:
  "drain (map uint bs) f d = (Some (fst (run bs f d)), snd (run bs f d))"
  by (induction bs arbitrary: f d) (simp_all split: prod.splits)

lemma run_append: "run (xs @ ys) f d = (case run xs f d of (f1, d1) \<Rightarrow> run ys f1 d1)"
  by (induction xs arbitrary: f d) (simp_all split: prod.splits)

lemma run_inv: "frame_inv f d \<Longrightarrow> run bs f d = (f1, d1) \<Longrightarrow> frame_inv f1 d1"
proof (induction bs arbitrary: f d)
  case Nil
  then show ?case by simp
next
  case (Cons x xs)
  obtain f2 d2 where st: "step x f d = (f2, d2)" by (cases "step x f d")
  from Cons.prems(2) st have "run xs f2 d2 = (f1, d1)" by simp
  moreover have "frame_inv f2 d2" using Cons.prems(1) st by (rule step_inv)
  ultimately show ?case by (rule Cons.IH [rotated])
qed

lemma step_cmd_keep: "cmd f \<noteq> NONE \<Longrightarrow> cmd (fst (step data f d)) = cmd f"
  by (cases "cmd f") (simp_all add: step_def dispatch_def split: prod.splits)

lemma step_dev_keep:
  "cmd f = NONE \<or> cmd f = GET_LEDS \<Longrightarrow> snd (step data f d) = d"
  by (cases "cmd f") (auto simp: step_def dispatch_def split: prod.splits)

lemma run_cmd_keep: "cmd f \<noteq> NONE \<Longrightarrow> cmd (fst (run bs f d)) = cmd f"
proof (induction bs arbitrary: f d)
  case Nil
  then show ?case by simp
next
  case (Cons x xs)
  obtain f2 d2 where st: "step x f d = (f2, d2)" by (cases "step x f d")
  have "cmd f2 = cmd f" using step_cmd_keep [OF Cons.prems, of x d] st by simp
  then show ?case using Cons.IH [of f2 d2] Cons.prems st by simp
qed

lemma run_dev_keep:
  "cmd (fst (run bs f d)) = NONE \<or> cmd (fst (run bs f d)) = GET_LEDS \<Longrightarrow>
   snd (run bs f d) = d"
proof (induction bs arbitrary: f d)
  case Nil
  then show ?case by simp
next
  case (Cons x xs)
  obtain f2 d2 where st: "step x f d = (f2, d2)" by (cases "step x f d")
  have fin: "cmd (fst (run xs f2 d2)) = NONE \<or> cmd (fst (run xs f2 d2)) = GET_LEDS"
    using Cons.prems st by simp
  have f2: "cmd f2 = NONE \<or> cmd f2 = GET_LEDS"
  proof (cases "cmd f2 = NONE")
    case True
    then show ?thesis by simp
  next
    case False
    from run_cmd_keep [OF False, of xs d2] fin show ?thesis by auto
  qed
  have "cmd f = NONE \<or> cmd f = GET_LEDS"
  proof (cases "cmd f = NONE")
    case True
    then show ?thesis by simp
  next
    case False
    from step_cmd_keep [OF False, of x d] st f2 show ?thesis by auto
  qed
  then have "d2 = d" using step_dev_keep [of f x d] st by simp
  moreover have "snd (run xs f2 d2) = d2" using fin by (rule Cons.IH)
  ultimately show ?case using st by simp
qed

lemma respond_simps:
  "state f = OK \<Longrightarrow> cmd f = GET_LEDS \<Longrightarrow>
     respond f = Some ([1, 0] @ take (LED_COUNT * 4) (ledData f))"
  "state f = OK \<Longrightarrow> cmd f = SET_LEDS \<Longrightarrow> respond f = Some [2, 0]"
  "state f = OK \<Longrightarrow> cmd f = SET_LEDS_ALL \<Longrightarrow> respond f = Some [3, 0]"
  "state f \<noteq> OK \<Longrightarrow>
     respond f = Some [word_of_int (cmd_val (cmd f)), word_of_int (state_val (state f))]"
  by (simp_all add: respond_def btRespond_def)

text \<open>
  C6. A frame of at least one byte, all read without error, on the strip of 64 LEDs is
  always answered, with \<open>respond\<close> of the drained frame. If the frame ends with the
  command \<^verbatim>\<open>GET_LEDS\<close> and status \<^verbatim>\<open>OK\<close>, the response is the tag 0x01, the status 0x00
  and then, for every LED in ascending index order, the quadruple (index, r, g, b) of its
  current colour: 258 bytes; the frame has not changed the strip. For \<^verbatim>\<open>SET_LEDS\<close> and
  \<^verbatim>\<open>SET_LEDS_ALL\<close> with status \<^verbatim>\<open>OK\<close> the response is the tag and 0x00; status \<^verbatim>\<open>OK\<close>
  never comes without a command; and with any other status the response is the tag and
  the status, with no payload.
\<close>

theorem response_shape:
  fixes bs :: "8 word list"
  assumes "bs \<noteq> []" "length (pixels d) = LED_COUNT" "length ld0 = LED_COUNT * 4"
  shows "\<exists>f d1. drain (map uint bs) (frame_init ld0) d = (Some f, d1) \<and>
           bt_poll (map uint bs) ld0 d = (d1, respond f) \<and>
           (cmd f = GET_LEDS \<and> state f = OK \<longrightarrow>
              respond f = Some ([0x01, 0x00] @ snapshot d1) \<and>
              length ([0x01, 0x00] @ snapshot d1) = 258 \<and> d1 = d) \<and>
           (cmd f = SET_LEDS \<and> state f = OK \<longrightarrow> respond f = Some [0x02, 0x00]) \<and>
           (cmd f = SET_LEDS_ALL \<and> state f = OK \<longrightarrow> respond f = Some [0x03, 0x00]) \<and>
           (state f = OK \<longrightarrow> cmd f \<noteq> NONE) \<and>
           (state f \<noteq> OK \<longrightarrow>
              respond f = Some [word_of_int (cmd_val (cmd f)), word_of_int (state_val (state f))])"
proof -
  obtain f d1 where rn: "run bs (frame_init ld0) d = (f, d1)"
    by (cases "run bs (frame_init ld0) d")
  have dr: "drain (map uint bs) (frame_init ld0) d = (Some f, d1)"
    by (simp add: drain_uint rn)
  have inv: "frame_inv f d1"
    using frame_inv_init [OF assms(3) assms(2)] rn by (rule run_inv)
  have poll: "bt_poll (map uint bs) ld0 d = (d1, respond f)"
    using assms(1) by (simp add: bt_poll_def dr)
  have get: "respond f = Some ([0x01, 0x00] @ snapshot d1) \<and>
      length ([0x01, 0x00] @ snapshot d1) = 258 \<and> d1 = d"
    if "cmd f = GET_LEDS" "state f = OK"
  proof -
    have "ledData f = snapshot d1" using inv that by (simp add: frame_inv_def)
    then have "respond f = Some ([0x01, 0x00] @ snapshot d1)"
      using that by (simp add: respond_simps length_snapshot)
    moreover have "length ([0x01, 0x00] @ snapshot d1) = 258"
      by (simp add: length_snapshot LED_COUNT_def)
    moreover have "d1 = d" using run_dev_keep [of bs "frame_init ld0" d] rn that by simp
    ultimately show ?thesis by simp
  qed
  have none: "cmd f \<noteq> NONE" if "state f = OK"
    using inv that by (simp add: frame_inv_def)
  have s2: "cmd f = SET_LEDS \<and> state f = OK \<longrightarrow> respond f = Some [0x02, 0x00]"
    by (simp add: respond_simps)
  have s3: "cmd f = SET_LEDS_ALL \<and> state f = OK \<longrightarrow> respond f = Some [0x03, 0x00]"
    by (simp add: respond_simps)
  have e5: "state f \<noteq> OK \<longrightarrow>
      respond f = Some [word_of_int (cmd_val (cmd f)), word_of_int (state_val (state f))]"
    by (simp add: respond_simps)
  show ?thesis
    using dr poll get none s2 s3 e5 by blast
qed

theorem response_shape_witness:
  "[1 :: 8 word] \<noteq> [] \<and> length (pixels dev_boot) = LED_COUNT \<and>
   length (replicate (LED_COUNT * 4) (0 :: 8 word)) = LED_COUNT * 4 \<and>
   bt_poll (map uint [1 :: 8 word]) (replicate (LED_COUNT * 4) 0) dev_boot =
     (dev_boot, Some ([0x01, 0x00] @ snapshot dev_boot)) \<and>
   length ([0x01, 0x00 :: 8 word] @ snapshot dev_boot) = 258"
proof -
  let ?ld = "replicate (LED_COUNT * 4) (0 :: 8 word)"
  have h: "[1 :: 8 word] \<noteq> []" "length (pixels dev_boot) = LED_COUNT"
    "length ?ld = LED_COUNT * 4"
    by (simp_all add: dev_boot_def)
  have dr: "drain (map uint [1 :: 8 word]) (frame_init ?ld) dev_boot =
      (Some \<lparr>count = 1, cmd = GET_LEDS, state = OK, ledData = snapshot dev_boot\<rparr>, dev_boot)"
    using h(2,3)
    by (simp add: frame_init_def step_def dispatch_def cmdNone_simps cmdGetLeds_def
        cmdGetLeds_snapshot)
  from response_shape [OF h] dr
  have "bt_poll (map uint [1 :: 8 word]) ?ld dev_boot =
      (dev_boot, Some ([0x01, 0x00] @ snapshot dev_boot)) \<and>
    length ([0x01, 0x00 :: 8 word] @ snapshot dev_boot) = 258"
    by auto
  with h show ?thesis by blast
qed

section \<open>Properties of the protocol: tags and statuses\<close>

lemma cmd_of_data_simps:
  "cmd_of_data 1 = GET_LEDS" "cmd_of_data 2 = SET_LEDS" "cmd_of_data 3 = SET_LEDS_ALL"
  by (simp_all add: cmd_of_data_def data_is_simps)

lemma step_NONE_cmd:
  "cmd f = NONE \<Longrightarrow>
   cmd (fst (step x f d)) = (if x = 1 \<or> x = 2 \<or> x = 3 then cmd_of_data x else NONE)"
  by (auto simp: step_def dispatch_def cmdNone_simps cmd_of_data_simps split: prod.splits)

lemma run_first_tag: "cmd f = NONE \<Longrightarrow> cmd (fst (run bs f d)) = first_tag bs"
proof (induction bs arbitrary: f d)
  case Nil
  then show ?case by simp
next
  case (Cons x xs)
  obtain f2 d2 where st: "step x f d = (f2, d2)" by (cases "step x f d")
  have c2: "cmd f2 = (if x = 1 \<or> x = 2 \<or> x = 3 then cmd_of_data x else NONE)"
    using step_NONE_cmd [OF Cons.prems, of x d] st by simp
  show ?case
  proof (cases "x = 1 \<or> x = 2 \<or> x = 3")
    case True
    then have "cmd f2 \<noteq> NONE" using c2 by (auto simp: cmd_of_data_simps)
    from run_cmd_keep [OF this, of xs d2] c2 True st show ?thesis by simp
  next
    case False
    then have "cmd f2 = NONE" using c2 by simp
    from Cons.IH [OF this, of d2] False st show ?thesis by simp
  qed
qed

lemma first_tag_NONE: "first_tag bs = NONE \<longleftrightarrow> (\<forall>x\<in>set bs. x \<noteq> 1 \<and> x \<noteq> 2 \<and> x \<noteq> 3)"
  by (induction bs) (auto simp: cmd_of_data_simps)

lemma step_err_keep:
  "err_state (state f) \<Longrightarrow> err_state (state (fst (step x f d))) \<and> snd (step x f d) = d"
  by (cases "cmd f")
    (auto simp: err_state_def step_def dispatch_def cmdNone_simps cmdGetLeds_def cmdSetLeds_def
      cmdSetLedsAll_def split: prod.splits if_splits)

lemma run_err_keep:
  "err_state (state f) \<Longrightarrow> err_state (state (fst (run bs f d))) \<and> snd (run bs f d) = d"
proof (induction bs arbitrary: f d)
  case Nil
  then show ?case by simp
next
  case (Cons x xs)
  obtain f2 d2 where st: "step x f d = (f2, d2)" by (cases "step x f d")
  from step_err_keep [OF Cons.prems, of x d] st have "err_state (state f2)" "d2 = d" by simp_all
  with Cons.IH [of f2 d2] st show ?case by simp
qed

lemma step_bad_first:
  "x \<noteq> 1 \<Longrightarrow> x \<noteq> 2 \<Longrightarrow> x \<noteq> 3 \<Longrightarrow> cmd f = NONE \<Longrightarrow>
   state (fst (step x f d)) = INVALID_COMMAND \<and> cmd (fst (step x f d)) = NONE \<and>
   snd (step x f d) = d"
  by (simp add: step_def dispatch_def cmdNone_simps)

lemma sint_succ16: "sint (c :: 16 word) < 32767 \<Longrightarrow> sint (c + 1) = sint c + 1"
proof -
  assume a: "sint c < 32767"
  have "- (2 ^ 15) \<le> sint c" using sint_ge [of c] by simp
  then show ?thesis
    using a by (simp add: sint_word_ariths signed_take_bit_int_eq_self)
qed

lemma step_count:
  "count (fst (step x f d)) = count f + 1 \<or> count (fst (step x f d)) = 1"
  by (cases "cmd f")
    (auto simp: step_def dispatch_def split: prod.splits)

lemma step_cnt_ok:
  assumes "cnt_ok k f" "k < 32767"
  shows "cnt_ok (Suc k) (fst (step x f d)) \<and> 0 \<le> sint (count (fst (step x f d)))"
proof -
  have s: "sint (count f + 1) = sint (count f) + 1"
    using assms by (intro sint_succ16) (simp add: cnt_ok_def)
  from step_count [of x f d] show ?thesis
  proof
    assume "count (fst (step x f d)) = count f + 1"
    then show ?thesis using assms s by (simp add: cnt_ok_def)
  next
    assume "count (fst (step x f d)) = 1"
    then show ?thesis using assms by (simp add: cnt_ok_def)
  qed
qed

lemma step_no_invalid_state:
  "cmd f = NONE \<or> 0 \<le> sint (count f) \<Longrightarrow> state f \<noteq> INVALID_STATE \<Longrightarrow>
   state (fst (step x f d)) \<noteq> INVALID_STATE"
  by (cases "cmd f")
    (auto simp: step_def dispatch_def cmdNone_simps cmdGetLeds_def cmdSetLeds_def
      cmdSetLedsAll_def Let_def split: prod.splits if_splits)

lemma run_no_invalid_state:
  "cnt_ok k f \<Longrightarrow> k + length bs \<le> 32767 \<Longrightarrow> state f \<noteq> INVALID_STATE \<Longrightarrow>
   state (fst (run bs f d)) \<noteq> INVALID_STATE"
proof (induction bs arbitrary: k f d)
  case Nil
  then show ?case by simp
next
  case (Cons x xs)
  obtain f2 d2 where st: "step x f d = (f2, d2)" by (cases "step x f d")
  have k: "k < 32767" using Cons.prems(2) by simp
  have "cnt_ok (Suc k) f2" using step_cnt_ok [OF Cons.prems(1) k, of x d] st by simp
  moreover have "Suc k + length xs \<le> 32767" using Cons.prems(2) by simp
  moreover have "state f2 \<noteq> INVALID_STATE"
    using step_no_invalid_state [of f x d] Cons.prems st by (simp add: cnt_ok_def)
  ultimately have "state (fst (run xs f2 d2)) \<noteq> INVALID_STATE" by (rule Cons.IH)
  then show ?case using st by simp
qed

lemma cnt_ok_init: "cnt_ok 0 (frame_init ld0)"
  by (simp add: cnt_ok_def frame_init_def)

lemma run_all_bad:
  "cmd f = NONE \<Longrightarrow> bs \<noteq> [] \<Longrightarrow> \<forall>x\<in>set bs. x \<noteq> 1 \<and> x \<noteq> 2 \<and> x \<noteq> 3 \<Longrightarrow>
   state (fst (run bs f d)) = INVALID_COMMAND \<and> cmd (fst (run bs f d)) = NONE \<and>
   snd (run bs f d) = d"
proof (induction bs arbitrary: f d)
  case Nil
  then show ?case by simp
next
  case (Cons x xs)
  obtain f2 d2 where st: "step x f d = (f2, d2)" by (cases "step x f d")
  have x: "x \<noteq> 1" "x \<noteq> 2" "x \<noteq> 3" using Cons.prems(3) by simp_all
  from step_bad_first [OF x Cons.prems(1), of d] st
  have f2: "state f2 = INVALID_COMMAND" "cmd f2 = NONE" "d2 = d" by simp_all
  show ?case
  proof (cases "xs = []")
    case True
    then show ?thesis using st f2 by simp
  next
    case False
    from Cons.IH [OF f2(2) False, of d2] Cons.prems(3) st f2 show ?thesis by simp
  qed
qed

lemma bt_poll_run:
  fixes bs :: "8 word list"
  shows "bs \<noteq> [] \<Longrightarrow>
   bt_poll (map uint bs) ld0 d =
     (snd (run bs (frame_init ld0) d), respond (fst (run bs (frame_init ld0) d)))"
  by (simp add: bt_poll_def drain_uint)

text \<open>
  C10 (as amended). A frame whose first byte is not one of the tags 0x01, 0x02, 0x03 leaves
  the strip and the mode as they were and is answered by two bytes. The first is the
  first byte of the frame that is a valid tag, and 0x00 (the value of \<^verbatim>\<open>NONE\<close>) exactly
  when no byte of the frame is one. The second is an error status: 0xFF
  (\<^verbatim>\<open>INVALID_COMMAND\<close>) for every frame of at most 32767 bytes.
\<close>

theorem invalid_first_byte_response:
  fixes bs :: "8 word list"
  assumes "bs \<noteq> []" "hd bs \<noteq> 1" "hd bs \<noteq> 2" "hd bs \<noteq> 3"
  shows "\<exists>st. (st = INVALID_COMMAND \<or> st = INVALID_STATE) \<and>
           bt_poll (map uint bs) ld0 d =
             (d, Some [word_of_int (cmd_val (first_tag bs)), word_of_int (state_val st)]) \<and>
           (length bs \<le> 32767 \<longrightarrow> st = INVALID_COMMAND) \<and>
           (first_tag bs = NONE \<longleftrightarrow> (\<forall>x\<in>set bs. x \<noteq> 1 \<and> x \<noteq> 2 \<and> x \<noteq> 3))"
proof -
  obtain x xs where bs: "bs = x # xs" using assms(1) by (cases bs) auto
  have x: "x \<noteq> 1" "x \<noteq> 2" "x \<noteq> 3" using assms bs by simp_all
  let ?ini = "frame_init ld0"
  obtain f2 d2 where st: "step x ?ini d = (f2, d2)" by (cases "step x ?ini d")
  have c0: "cmd ?ini = NONE" by (simp add: frame_init_def)
  from step_bad_first [OF x c0, of d] st
  have f2: "state f2 = INVALID_COMMAND" "cmd f2 = NONE" "d2 = d" by simp_all
  let ?f = "fst (run bs ?ini d)"
  have rn: "run bs ?ini d = run xs f2 d" unfolding bs run.simps st by (simp add: f2)
  have err: "err_state (state ?f)" and dev: "snd (run bs ?ini d) = d"
    using run_err_keep [of f2 xs d] f2 rn by (simp_all add: err_state_def)
  have tag: "cmd ?f = first_tag bs" by (rule run_first_tag [OF c0])
  have ne: "state ?f \<noteq> OK" using err by (auto simp: err_state_def)
  have poll: "bt_poll (map uint bs) ld0 d =
      (d, Some [word_of_int (cmd_val (first_tag bs)), word_of_int (state_val (state ?f))])"
    using assms(1) dev tag ne by (simp add: bt_poll_run respond_simps)
  have short: "state ?f = INVALID_COMMAND" if "length bs \<le> 32767"
  proof -
    have "state ?f \<noteq> INVALID_STATE"
      using run_no_invalid_state [OF cnt_ok_init, of bs ld0 d] that
      by (simp add: frame_init_def)
    then show ?thesis using err by (simp add: err_state_def)
  qed
  from err poll short first_tag_NONE [of bs] show ?thesis
    unfolding err_state_def by blast
qed

theorem invalid_first_byte_response_witness:
  "[7, 2 :: 8 word] \<noteq> [] \<and> hd [7, 2 :: 8 word] \<noteq> 1 \<and> hd [7, 2 :: 8 word] \<noteq> 2 \<and>
   hd [7, 2 :: 8 word] \<noteq> 3 \<and> length [7, 2 :: 8 word] \<le> 32767 \<and>
   first_tag [7, 2] = SET_LEDS \<and>
   bt_poll (map uint [7, 2 :: 8 word]) (replicate (LED_COUNT * 4) 0) dev_boot =
     (dev_boot, Some [0x02, 0xFF])"
proof -
  have h: "[7, 2 :: 8 word] \<noteq> []" "hd [7, 2 :: 8 word] \<noteq> 1" "hd [7, 2 :: 8 word] \<noteq> 2"
    "hd [7, 2 :: 8 word] \<noteq> 3" "length [7, 2 :: 8 word] \<le> 32767"
    by simp_all
  have t: "first_tag [7, 2] = SET_LEDS" by (simp add: cmd_of_data_simps)
  from invalid_first_byte_response [OF h(1-4), of "replicate (LED_COUNT * 4) 0" dev_boot] h(5) t
  have "bt_poll (map uint [7, 2 :: 8 word]) (replicate (LED_COUNT * 4) 0) dev_boot =
     (dev_boot, Some [0x02, 0xFF])"
    by auto
  with h t show ?thesis by blast
qed

text \<open>
  The frame 0x07, 0x02: its first byte is no tag, and the response carries the tag 0x02.
\<close>

theorem invalid_first_byte_tag_counterexample:
  "hd [7, 2 :: 8 word] \<noteq> 1 \<and> hd [7, 2 :: 8 word] \<noteq> 2 \<and> hd [7, 2 :: 8 word] \<noteq> 3 \<and>
   bt_poll (map uint [7, 2 :: 8 word]) (replicate (LED_COUNT * 4) 0) dev_boot =
     (dev_boot, Some [0x02, 0xFF])"
  by (simp add: bt_poll_def frame_init_def step_def dispatch_def cmdNone_simps respond_def
      btRespond_def cmdSetLeds_def)

text \<open>
  C4 (as amended). Each of the three handlers sets the status \<^verbatim>\<open>INVALID_STATE\<close> when it is
  called with a negative count. The drain loop does not call them so: a byte that arrives
  while no tag has been recognised is itself read as the tag, and if it is none of 0x01,
  0x02, 0x03 the status becomes \<^verbatim>\<open>INVALID_COMMAND\<close> (0xFF) and still no command is
  selected. A frame without any tag byte is answered 0x00, 0xFF, and no frame of at most
  32767 bytes ends with the status \<^verbatim>\<open>INVALID_STATE\<close>.
\<close>

theorem premature_payload_status:
  fixes bs :: "8 word list"
  shows
  "(cnt < 0 \<longrightarrow>
      fst (cmdGetLeds cnt st ld data d) = INVALID_STATE \<and>
      fst (cmdSetLeds cnt st ld data d) = INVALID_STATE \<and>
      fst (cmdSetLedsAll cnt st ld data d) = INVALID_STATE) \<and>
   (cmd f = NONE \<and> x \<noteq> 1 \<and> x \<noteq> 2 \<and> x \<noteq> 3 \<longrightarrow>
      state (fst (step x f d)) = INVALID_COMMAND \<and> cmd (fst (step x f d)) = NONE) \<and>
   (bs \<noteq> [] \<and> (\<forall>x\<in>set bs. x \<noteq> 1 \<and> x \<noteq> 2 \<and> x \<noteq> 3) \<longrightarrow>
      bt_poll (map uint bs) ld0 d = (d, Some [0x00, 0xFF])) \<and>
   (bs \<noteq> [] \<and> length bs \<le> 32767 \<longrightarrow>
      (\<exists>f1 d1. drain (map uint bs) (frame_init ld0) d = (Some f1, d1) \<and>
         state f1 \<noteq> INVALID_STATE))"
proof -
  have a: "cnt < 0 \<longrightarrow>
      fst (cmdGetLeds cnt st ld data d) = INVALID_STATE \<and>
      fst (cmdSetLeds cnt st ld data d) = INVALID_STATE \<and>
      fst (cmdSetLedsAll cnt st ld data d) = INVALID_STATE"
    by (simp add: cmdGetLeds_def cmdSetLeds_def cmdSetLedsAll_def)
  have b: "cmd f = NONE \<and> x \<noteq> 1 \<and> x \<noteq> 2 \<and> x \<noteq> 3 \<longrightarrow>
      state (fst (step x f d)) = INVALID_COMMAND \<and> cmd (fst (step x f d)) = NONE"
    using step_bad_first [of x f d] by blast
  have c: "bt_poll (map uint bs) ld0 d = (d, Some [0x00, 0xFF])"
    if "bs \<noteq> []" "\<forall>x\<in>set bs. x \<noteq> 1 \<and> x \<noteq> 2 \<and> x \<noteq> 3"
  proof -
    have "cmd (frame_init ld0) = NONE" by (simp add: frame_init_def)
    from run_all_bad [OF this that, of d] that(1) show ?thesis
      by (simp add: bt_poll_run respond_simps)
  qed
  have e: "\<exists>f1 d1. drain (map uint bs) (frame_init ld0) d = (Some f1, d1) \<and>
         state f1 \<noteq> INVALID_STATE"
    if "length bs \<le> 32767"
  proof -
    have "state (fst (run bs (frame_init ld0) d)) \<noteq> INVALID_STATE"
      using run_no_invalid_state [OF cnt_ok_init, of bs ld0 d] that
      by (simp add: frame_init_def)
    then show ?thesis by (simp add: drain_uint)
  qed
  from a b c e show ?thesis by blast
qed

theorem premature_payload_status_witness:
  "fst (cmdGetLeds (- 1) OK [] 0 dev_boot) = INVALID_STATE \<and>
   state (fst (step 5 (frame_init []) dev_boot)) = INVALID_COMMAND \<and>
   bt_poll (map uint [7, 5 :: 8 word]) [] dev_boot = (dev_boot, Some [0x00, 0xFF]) \<and>
   (\<exists>f1 d1. drain (map uint [7, 5 :: 8 word]) (frame_init []) dev_boot = (Some f1, d1) \<and>
      state f1 \<noteq> INVALID_STATE)"
  using premature_payload_status [of "- 1" OK "[]" 0 dev_boot "frame_init []" 5 "[7, 5]" "[]"]
  by (simp add: frame_init_def)

text \<open>
  The frame 0x07, 0x05: both bytes arrive with no tag recognised, and the frame ends with
  the status \<^verbatim>\<open>INVALID_COMMAND\<close>, answered 0x00, 0xFF.
\<close>

theorem premature_payload_counterexample:
  "drain (map uint [7, 5 :: 8 word]) (frame_init (replicate (LED_COUNT * 4) 0)) dev_boot =
     (Some \<lparr>count = 1, cmd = NONE, state = INVALID_COMMAND,
            ledData = replicate (LED_COUNT * 4) 0\<rparr>, dev_boot) \<and>
   bt_poll (map uint [7, 5 :: 8 word]) (replicate (LED_COUNT * 4) 0) dev_boot =
     (dev_boot, Some [0x00, 0xFF])"
  by (simp add: bt_poll_def frame_init_def step_def dispatch_def cmdNone_simps respond_def
      btRespond_def)

section \<open>Properties of the protocol: SET_LEDS and SET_LEDS_ALL\<close>

lemma step_set_store:
  assumes "cmd f = SET_LEDS" "sint (count f) = int c" "c < 256" "c mod 4 \<noteq> 3"
    "state f = INVALID_DATA_LENGTH \<or> state f = OK"
  shows "step x f d = (f\<lparr>ledData := (ledData f)[c := x], count := count f + 1\<rparr>, d)"
proof -
  have "int c mod 4 \<noteq> 3" using assms(4) by presburger
  then show ?thesis
    using assms by (auto simp: step_def dispatch_def cmdSetLeds_def LED_COUNT_def Let_def)
qed

lemma step_set_write:
  assumes "cmd f = SET_LEDS" "sint (count f) = int (4 * k + 3)" "k < 64"
    "state f = INVALID_DATA_LENGTH \<or> state f = OK"
  shows "step x f d =
    (f\<lparr>state := OK, ledData := (ledData f)[4 * k + 3 := x], count := count f + 1\<rparr>,
     write_group ((ledData f)[4 * k + 3 := x] ! (4 * k), (ledData f)[4 * k + 3 := x] ! (4 * k + 1),
                  (ledData f)[4 * k + 3 := x] ! (4 * k + 2), (ledData f)[4 * k + 3 := x] ! (4 * k + 3)) d)"
proof -
  have m: "(int (4 * k + 3)) mod 4 = 3" by presburger
  have dv: "nat (int (4 * k + 3) div 4) = k" by simp
  have lt: "int (4 * k + 3) < int (LED_COUNT * 4)" using assms(3) by (simp add: LED_COUNT_def)
  have nn: "\<not> int (4 * k + 3) < 0" by simp
  have kk: "\<not> LED_COUNT \<le> k" using assms(3) by (simp add: LED_COUNT_def)
  show ?thesis
    using assms(1,4)
    unfolding step_def dispatch_def cmdSetLeds_def assms(2) Let_def write_group_def
    by (auto simp only: m dv lt nn kk nat_int mult.commute [of k 4] simp_thms if_True if_False
        cmd_t.case prod.case frame.simps)
      simp_all
qed

lemma sint_count_succ:
  "sint (c :: 16 word) = int m \<Longrightarrow> m < 32767 \<Longrightarrow> sint (c + 1) = int (m + 1)"
  using sint_succ16 [of c] by simp

lemma run_group:
  assumes "cmd f = SET_LEDS" "sint (count f) = int (4 * k)" "k < 64"
    "state f = INVALID_DATA_LENGTH \<or> state f = OK" "length (ledData f) = LED_COUNT * 4"
  shows "\<exists>f1. run [n, rr, gg, bb] f d = (f1, write_group (n, rr, gg, bb) d) \<and>
           cmd f1 = SET_LEDS \<and> sint (count f1) = int (4 * (k + 1)) \<and> state f1 = OK \<and>
           length (ledData f1) = LED_COUNT * 4"
proof -
  have m: "(4 * k) mod 4 \<noteq> 3" "(4 * k + 1) mod 4 \<noteq> 3" "(4 * k + 2) mod 4 \<noteq> 3"
    by presburger+
  have lt: "4 * k < 256" "4 * k + 1 < 256" "4 * k + 2 < 256" "4 * k < 32767"
    "4 * k + 1 < 32767" "4 * k + 2 < 32767" "4 * k + 3 < 32767"
    using assms(3) by simp_all
  let ?f1 = "f\<lparr>ledData := (ledData f)[4 * k := n], count := count f + 1\<rparr>"
  have s1: "step n f d = (?f1, d)"
    by (rule step_set_store [OF assms(1,2) lt(1) m(1) assms(4)])
  have c1: "sint (count ?f1) = int (4 * k + 1)"
    using sint_count_succ [OF assms(2) lt(4)] by simp
  have k1: "cmd ?f1 = SET_LEDS" "state ?f1 = INVALID_DATA_LENGTH \<or> state ?f1 = OK"
    using assms by simp_all
  let ?f2 = "?f1\<lparr>ledData := (ledData ?f1)[4 * k + 1 := rr], count := count ?f1 + 1\<rparr>"
  have s2: "step rr ?f1 d = (?f2, d)"
    by (rule step_set_store [OF k1(1) c1 lt(2) m(2) k1(2)])
  have c2: "sint (count ?f2) = int (4 * k + 2)"
    using sint_count_succ [OF c1 lt(5)] by simp
  have k2: "cmd ?f2 = SET_LEDS" "state ?f2 = INVALID_DATA_LENGTH \<or> state ?f2 = OK"
    using assms by simp_all
  let ?f3 = "?f2\<lparr>ledData := (ledData ?f2)[4 * k + 2 := gg], count := count ?f2 + 1\<rparr>"
  have s3: "step gg ?f2 d = (?f3, d)"
    by (rule step_set_store [OF k2(1) c2 lt(3) m(3) k2(2)])
  have c3: "sint (count ?f3) = int (4 * k + 3)"
    using sint_count_succ [OF c2 lt(6)] by simp
  have k3: "cmd ?f3 = SET_LEDS" "state ?f3 = INVALID_DATA_LENGTH \<or> state ?f3 = OK"
    using assms by simp_all
  note s4 = step_set_write [OF k3(1) c3 assms(3) k3(2), of bb d]
  have len: "4 * k + 3 < length (ledData f)" using assms(3,5) by (simp add: LED_COUNT_def)
  have vals:
    "(ledData ?f3)[4 * k + 3 := bb] ! (4 * k) = n"
    "(ledData ?f3)[4 * k + 3 := bb] ! (4 * k + 1) = rr"
    "(ledData ?f3)[4 * k + 3 := bb] ! (4 * k + 2) = gg"
    "(ledData ?f3)[4 * k + 3 := bb] ! (4 * k + 3) = bb"
    using len by simp_all
  let ?f4 = "?f3\<lparr>state := OK, ledData := (ledData ?f3)[4 * k + 3 := bb], count := count ?f3 + 1\<rparr>"
  have s4': "step bb ?f3 d = (?f4, write_group (n, rr, gg, bb) d)"
    using s4 unfolding vals .
  have c4: "sint (count ?f4) = int (4 * (k + 1))"
    using sint_count_succ [OF c3 lt(7)] by simp
  have "run [n, rr, gg, bb] f d = (?f4, write_group (n, rr, gg, bb) d)"
    by (simp only: run.simps s1 s2 s3 s4' prod.case)
  moreover have "cmd ?f4 = SET_LEDS" "state ?f4 = OK" "length (ledData ?f4) = LED_COUNT * 4"
    using assms by simp_all
  ultimately show ?thesis using c4 by blast
qed

lemma encode_Cons: "encode ((n, rr, gg, bb) # gs) = [n, rr, gg, bb] @ encode gs"
  by (simp add: encode_def)

lemma run_groups:
  "cmd f = SET_LEDS \<Longrightarrow> sint (count f) = int (4 * k) \<Longrightarrow> k + length gs \<le> 64 \<Longrightarrow>
   state f = INVALID_DATA_LENGTH \<or> state f = OK \<Longrightarrow> length (ledData f) = LED_COUNT * 4 \<Longrightarrow>
   \<exists>f1. run (encode gs) f d = (f1, fold write_group gs d) \<and> cmd f1 = SET_LEDS \<and>
        state f1 = (if gs = [] then state f else OK)"
proof (induction gs arbitrary: f d k)
  case Nil
  then show ?case by (simp add: encode_def)
next
  case (Cons gr gs)
  obtain n rr gg bb where gr: "gr = (n, rr, gg, bb)" by (cases gr)
  have k: "k < 64" using Cons.prems(3) by simp
  from run_group [OF Cons.prems(1,2) k Cons.prems(4,5), of n rr gg bb d]
  obtain f1 where f1: "run [n, rr, gg, bb] f d = (f1, write_group (n, rr, gg, bb) d)"
    "cmd f1 = SET_LEDS" "sint (count f1) = int (4 * (k + 1))" "state f1 = OK"
    "length (ledData f1) = LED_COUNT * 4"
    by blast
  have "k + 1 + length gs \<le> 64" using Cons.prems(3) by simp
  moreover have "state f1 = INVALID_DATA_LENGTH \<or> state f1 = OK" using f1(4) by simp
  ultimately obtain f2 where f2:
    "run (encode gs) f1 (write_group (n, rr, gg, bb) d) =
       (f2, fold write_group gs (write_group (n, rr, gg, bb) d))"
    "cmd f2 = SET_LEDS" "state f2 = (if gs = [] then state f1 else OK)"
    using Cons.IH [OF f1(2,3) _ _ f1(5), of "write_group (n, rr, gg, bb) d"] by blast
  have "run (encode (gr # gs)) f d = (f2, fold write_group (gr # gs) d)"
    unfolding gr encode_Cons run_append f1(1) by (simp add: f2(1))
  moreover have "state f2 = OK" using f2(3) f1(4) by simp
  ultimately show ?case using f2(2) by simp
qed

lemma step_set_tag:
  "step 2 (frame_init ld0) d =
     (\<lparr>count = 0, cmd = SET_LEDS, state = INVALID_DATA_LENGTH, ledData = ld0\<rparr>, d)"
  by (simp add: step_def dispatch_def frame_init_def cmdNone_simps)

lemma set_leds_poll:
  assumes "length ld0 = LED_COUNT * 4" "length gs \<le> 64"
  shows "bt_poll (map uint (2 # encode gs)) ld0 d =
           (fold write_group gs d, Some [0x02, if gs = [] then 0x01 else 0x00])"
proof -
  let ?f = "\<lparr>count = 0, cmd = SET_LEDS, state = INVALID_DATA_LENGTH, ledData = ld0\<rparr>"
  have "\<exists>f1. run (encode gs) ?f d = (f1, fold write_group gs d) \<and> cmd f1 = SET_LEDS \<and>
        state f1 = (if gs = [] then state ?f else OK)"
    using assms by (intro run_groups [where k = 0]) simp_all
  then obtain f1 where f1: "run (encode gs) ?f d = (f1, fold write_group gs d)"
    "cmd f1 = SET_LEDS" "state f1 = (if gs = [] then INVALID_DATA_LENGTH else OK)"
    by auto
  have rn: "run (2 # encode gs) (frame_init ld0) d = (f1, fold write_group gs d)"
    by (simp add: step_set_tag f1(1))
  have ne: "2 # encode gs \<noteq> []" by simp
  have "bt_poll (map uint (2 # encode gs)) ld0 d = (fold write_group gs d, respond f1)"
    using bt_poll_run [OF ne, of ld0 d] unfolding rn by simp
  moreover have "respond f1 = Some [0x02, if gs = [] then 0x01 else 0x00]"
    using f1(2,3) by (simp add: respond_def btRespond_def)
  ultimately show ?thesis by simp
qed

lemma pixels_write_group:
  "pixels (write_group (n, rr, gg, bb) d) =
     (if unat n < length (pixels d) then (pixels d)[unat n := \<lparr>r = rr, g = gg, b = bb\<rparr>]
      else pixels d)"
  by (simp add: write_group_def show_leds_def setPixelColor_def)

lemma length_pixels_fold_write: "length (pixels (fold write_group gs d)) = length (pixels d)"
  by (induction gs arbitrary: d) (auto simp: pixels_write_group)

lemma last_write_Cons:
  "last_write ((n, rr, gg, bb) # gs) i =
     (case last_write gs i of
        None \<Rightarrow> (if i = unat n then Some \<lparr>r = rr, g = gg, b = bb\<rparr> else None)
      | Some c \<Rightarrow> Some c)"
  by (simp add: last_write_def map_add_def split: option.splits)

lemma pixels_fold_write:
  "i < length (pixels d) \<Longrightarrow>
   pixels (fold write_group gs d) ! i =
     (case last_write gs i of None \<Rightarrow> pixels d ! i | Some c \<Rightarrow> c)"
proof (induction gs arbitrary: d)
  case Nil
  then show ?case by (simp add: last_write_def)
next
  case (Cons gr gs)
  obtain n rr gg bb where gr: "gr = (n, rr, gg, bb)" by (cases gr)
  have "i < length (pixels (write_group gr d))"
    using Cons.prems by (simp add: gr pixels_write_group)
  from Cons.IH [OF this] Cons.prems show ?case
    by (auto simp: gr last_write_Cons pixels_write_group split: option.splits)
qed

lemma get_leds_poll:
  assumes "length (pixels d) = LED_COUNT" "length ld1 = LED_COUNT * 4"
  shows "bt_poll (map uint [1 :: 8 word]) ld1 d = (d, Some ([0x01, 0x00] @ snapshot d))"
  using assms
  by (simp add: bt_poll_def frame_init_def step_def dispatch_def cmdNone_simps cmdGetLeds_def
      cmdGetLeds_snapshot respond_def btRespond_def length_snapshot)

lemma set_leds_frame_eq:
  "length ld0 = LED_COUNT * 4 \<Longrightarrow> length gs \<le> LED_COUNT \<Longrightarrow>
   set_leds_frame (ld0, gs) d = fold write_group gs d"
  using set_leds_poll [of ld0 gs d] by (simp add: set_leds_frame_def LED_COUNT_def)

lemma fold_set_leds_frame:
  "\<forall>(ld0, gs)\<in>set frames. length ld0 = LED_COUNT * 4 \<and> length gs \<le> LED_COUNT \<Longrightarrow>
   fold set_leds_frame frames d = fold write_group (concat (map snd frames)) d"
proof (induction frames arbitrary: d)
  case Nil
  show ?case by simp
next
  case (Cons fr frames)
  obtain ld0 gs where fr: "fr = (ld0, gs)" by (cases fr)
  have "set_leds_frame fr d = fold write_group gs d"
    using Cons.prems by (simp add: fr set_leds_frame_eq)
  moreover have "\<forall>(ld0, gs)\<in>set frames. length ld0 = LED_COUNT * 4 \<and> length gs \<le> LED_COUNT"
    using Cons.prems by simp
  ultimately show ?case using Cons.IH by (simp add: fr)
qed

text \<open>
  C3. Take any strip of 64 LEDs and any sequence of \<^verbatim>\<open>SET_LEDS\<close> frames, each with at most
  64 groups (the groups the handler accepts), processed one after the other. A
  \<^verbatim>\<open>GET_LEDS\<close> frame processed afterwards leaves the strip as it is and returns tag 0x01,
  status 0x00 and, for every index in ascending order, the index followed by the colour of
  the last group of the whole sequence that names this index, or by the colour the LED had
  before the sequence if no group names it. The code fixes \<open>N = LED_COUNT = 64\<close>.
\<close>

theorem set_then_get:
  assumes "length (pixels d) = LED_COUNT"
    "\<forall>(ld0, gs)\<in>set frames. length ld0 = LED_COUNT * 4 \<and> length gs \<le> LED_COUNT"
    "length ld1 = LED_COUNT * 4"
  shows "bt_poll (map uint [0x01 :: 8 word]) ld1 (fold set_leds_frame frames d) =
     (fold set_leds_frame frames d,
      Some ([0x01, 0x00] @
        concat (map (\<lambda>i. of_nat i #
                        chans (case last_write (concat (map snd frames)) i of
                                 None \<Rightarrow> pixels d ! i | Some c \<Rightarrow> c))
                 [0..<LED_COUNT])))"
proof -
  let ?gs = "concat (map snd frames)"
  let ?d1 = "fold write_group ?gs d"
  have d1: "fold set_leds_frame frames d = ?d1"
    using assms(2) by (rule fold_set_leds_frame)
  have len: "length (pixels ?d1) = LED_COUNT"
    using assms(1) by (simp add: length_pixels_fold_write)
  have rows: "row ?d1 i =
      of_nat i # chans (case last_write ?gs i of None \<Rightarrow> pixels d ! i | Some c \<Rightarrow> c)"
    if "i < LED_COUNT" for i
    using that assms(1) by (simp add: row_def chans_def pixels_fold_write)
  have "snapshot ?d1 =
      concat (map (\<lambda>i. of_nat i #
                      chans (case last_write ?gs i of None \<Rightarrow> pixels d ! i | Some c \<Rightarrow> c))
               [0..<LED_COUNT])"
    unfolding snapshot_def by (rule arg_cong [where f = concat], rule map_cong) (simp_all add: rows)
  then show ?thesis
    using get_leds_poll [OF len assms(3)] by (simp only: d1)
qed

theorem set_then_get_witness:
  "length (pixels dev_boot) = LED_COUNT \<and>
   (\<exists>fr\<in>set [(replicate (LED_COUNT * 4) (0 :: 8 word), [(5, 255, 0, 0) :: group])].
      length (fst fr) = LED_COUNT * 4 \<and> length (snd fr) \<le> LED_COUNT) \<and>
   length (replicate (LED_COUNT * 4) (0 :: 8 word)) = LED_COUNT * 4 \<and>
   last_write [(5, 255, 0, 0)] 5 = Some \<lparr>r = 255, g = 0, b = 0\<rparr> \<and>
   last_write [(5, 255, 0, 0)] 6 = None \<and>
   bt_poll (map uint [0x01 :: 8 word]) (replicate (LED_COUNT * 4) 0)
       (fold set_leds_frame [(replicate (LED_COUNT * 4) 0, [(5, 255, 0, 0)])] dev_boot) =
     (fold set_leds_frame [(replicate (LED_COUNT * 4) 0, [(5, 255, 0, 0)])] dev_boot,
      Some ([0x01, 0x00] @
        concat (map (\<lambda>i. of_nat i #
                        chans (case last_write [(5, 255, 0, 0)] i of
                                 None \<Rightarrow> pixels dev_boot ! i | Some c \<Rightarrow> c))
                 [0..<LED_COUNT])))"
proof -
  let ?frames = "[(replicate (LED_COUNT * 4) (0 :: 8 word), [(5, 255, 0, 0) :: group])]"
  have h1: "length (pixels dev_boot) = LED_COUNT" by (simp add: dev_boot_def)
  have h2: "\<forall>(ld0, gs)\<in>set ?frames. length ld0 = LED_COUNT * 4 \<and> length gs \<le> LED_COUNT"
    by (simp add: LED_COUNT_def)
  have h3: "length (replicate (LED_COUNT * 4) (0 :: 8 word)) = LED_COUNT * 4" by simp
  have l: "last_write [(5, 255, 0, 0)] 5 = Some \<lparr>r = 255, g = 0, b = 0\<rparr>"
    "last_write [(5, 255, 0, 0)] 6 = None"
    by (simp_all add: last_write_def)
  from set_then_get [OF h1 h2 h3] h1 h2 h3 l show ?thesis by simp
qed

text \<open>
  C1 (what the code does). A \<^verbatim>\<open>SET_LEDS\<close> frame of 1 to 64 complete groups ends with
  status \<^verbatim>\<open>OK\<close> and the response 0x02, 0x00 whatever the LED indices are, and every group
  goes to \<^verbatim>\<open>setPixelColor\<close>, also the groups after one whose index is 64 or more: the
  range check of \<^verbatim>\<open>cmdSetLeds\<close> tests the group number, not the LED index. The driver
  alone ignores the write of an index outside the strip.
\<close>

theorem set_leds_status_unchecked:
  assumes "length ld0 = LED_COUNT * 4" "gs \<noteq> []" "length gs \<le> LED_COUNT"
  shows "bt_poll (map uint (0x02 # encode gs)) ld0 d = (fold write_group gs d, Some [0x02, 0x00])"
  using set_leds_poll [of ld0 gs d] assms by (simp add: LED_COUNT_def)

theorem set_leds_status_unchecked_witness:
  "length (replicate (LED_COUNT * 4) (0 :: 8 word)) = LED_COUNT * 4 \<and>
   [(99, 1, 2, 3), (5, 255, 0, 0) :: group] \<noteq> [] \<and>
   length [(99, 1, 2, 3), (5, 255, 0, 0) :: group] \<le> LED_COUNT \<and>
   bt_poll (map uint [0x02, 99, 1, 2, 3, 5, 255, 0, 0 :: 8 word]) (replicate (LED_COUNT * 4) 0)
       dev_boot =
     (\<lparr>pixels = (replicate LED_COUNT black)[5 := \<lparr>r = 255, g = 0, b = 0\<rparr>],
       shown = (replicate LED_COUNT black)[5 := \<lparr>r = 255, g = 0, b = 0\<rparr>],
       mode = BT\<rparr>, Some [0x02, 0x00])"
proof -
  have h: "length (replicate (LED_COUNT * 4) (0 :: 8 word)) = LED_COUNT * 4"
    "[(99, 1, 2, 3), (5, 255, 0, 0) :: group] \<noteq> []"
    "length [(99, 1, 2, 3), (5, 255, 0, 0) :: group] \<le> LED_COUNT"
    by (simp_all add: LED_COUNT_def)
  have w: "fold write_group [(99, 1, 2, 3), (5, 255, 0, 0)] dev_boot =
      \<lparr>pixels = (replicate LED_COUNT black)[5 := \<lparr>r = 255, g = 0, b = 0\<rparr>],
       shown = (replicate LED_COUNT black)[5 := \<lparr>r = 255, g = 0, b = 0\<rparr>],
       mode = BT\<rparr>"
    by (simp add: write_group_def show_leds_def setPixelColor_def dev_boot_def LED_COUNT_def)
  from set_leds_status_unchecked [OF h, of dev_boot] w h show ?thesis
    by (simp add: encode_def)
qed

lemma step_set_all:
  assumes "cmd f = SET_LEDS_ALL" "sint (count f) = int c" "c < 3"
    "state f = INVALID_DATA_LENGTH \<or> state f = OK"
  shows "step x f d =
    (f\<lparr>state := OK, ledData := (ledData f)[c := x], count := count f + 1\<rparr>,
     (show_leds (fill (Color ((ledData f)[c := x] ! 0) ((ledData f)[c := x] ! 1)
                             ((ledData f)[c := x] ! 2)) d))\<lparr>mode := BT\<rparr>)"
  using assms by (auto simp: step_def dispatch_def cmdSetLedsAll_def Let_def)

lemma step_set_all_tag:
  "step 3 (frame_init ld0) d =
     (\<lparr>count = 0, cmd = SET_LEDS_ALL, state = INVALID_DATA_LENGTH, ledData = ld0\<rparr>, d)"
  by (simp add: step_def dispatch_def frame_init_def cmdNone_simps)

text \<open>
  C2 (what the code does). The first payload byte of a \<^verbatim>\<open>SET_LEDS_ALL\<close> frame already
  fills and shows the strip, with that byte as red and the bytes found in \<open>ledData[1]\<close>
  and \<open>ledData[2]\<close> as green and blue, sets the mode to \<^verbatim>\<open>BT\<close> and the status to
  \<^verbatim>\<open>OK\<close>. The complete frame 0x03, r, g, b ends with every LED equal to (r, g, b) in the
  buffer and on the strip, mode \<^verbatim>\<open>BT\<close>, and the response 0x03, 0x00.
\<close>

theorem set_leds_all_every_byte:
  assumes "3 \<le> length ld0"
  shows "bt_poll (map uint [0x03, x]) ld0 d =
           ((show_leds (fill (Color x (ld0 ! 1) (ld0 ! 2)) d))\<lparr>mode := BT\<rparr>, Some [0x03, 0x00]) \<and>
         bt_poll (map uint [0x03, rr, gg, bb]) ld0 d =
           (d\<lparr>pixels := replicate (length (pixels d)) \<lparr>r = rr, g = gg, b = bb\<rparr>,
              shown := replicate (length (pixels d)) \<lparr>r = rr, g = gg, b = bb\<rparr>,
              mode := BT\<rparr>, Some [0x03, 0x00])"
proof -
  let ?fz = "\<lparr>count = 0, cmd = SET_LEDS_ALL, state = INVALID_DATA_LENGTH, ledData = ld0\<rparr>"
  let ?d1 = "(show_leds (fill (Color x (ld0 ! 1) (ld0 ! 2)) d))\<lparr>mode := BT\<rparr>"
  have len: "0 < length ld0" "1 < length ld0" "2 < length ld0" using assms by auto
  have s1: "step y ?fz e =
      (\<lparr>count = 1, cmd = SET_LEDS_ALL, state = OK, ledData = ld0[0 := y]\<rparr>,
       (show_leds (fill (Color y (ld0 ! 1) (ld0 ! 2)) e))\<lparr>mode := BT\<rparr>)" for y e
    using step_set_all [of ?fz 0 y e] len by simp
  have one: "run [0x03, x] (frame_init ld0) d =
      (\<lparr>count = 1, cmd = SET_LEDS_ALL, state = OK, ledData = ld0[0 := x]\<rparr>, ?d1)"
    by (simp only: run.simps step_set_all_tag s1 prod.case)
  let ?fa = "\<lparr>count = 1, cmd = SET_LEDS_ALL, state = OK, ledData = ld0[0 := rr]\<rparr>"
  have s2: "step gg ?fa e =
      (\<lparr>count = 2, cmd = SET_LEDS_ALL, state = OK, ledData = ld0[0 := rr, 1 := gg]\<rparr>,
       (show_leds (fill (Color rr gg (ld0 ! 2)) e))\<lparr>mode := BT\<rparr>)" for e
    using step_set_all [of ?fa 1 gg e] len by simp
  let ?fb = "\<lparr>count = 2, cmd = SET_LEDS_ALL, state = OK, ledData = ld0[0 := rr, 1 := gg]\<rparr>"
  have s3: "step bb ?fb e =
      (\<lparr>count = 3, cmd = SET_LEDS_ALL, state = OK, ledData = ld0[0 := rr, 1 := gg, 2 := bb]\<rparr>,
       (show_leds (fill (Color rr gg bb) e))\<lparr>mode := BT\<rparr>)" for e
    using step_set_all [of ?fb 2 bb e] len by simp
  have full: "run [0x03, rr, gg, bb] (frame_init ld0) d =
      (\<lparr>count = 3, cmd = SET_LEDS_ALL, state = OK, ledData = ld0[0 := rr, 1 := gg, 2 := bb]\<rparr>,
       (show_leds (fill (Color rr gg bb) d))\<lparr>mode := BT\<rparr>)"
    by (simp only: run.simps step_set_all_tag s1 s2 s3 prod.case)
      (simp add: fill_def show_leds_def)
  have ne: "[0x03, x] \<noteq> []" "[0x03, rr, gg, bb] \<noteq> []" by simp_all
  have p1: "bt_poll (map uint [0x03, x]) ld0 d = (?d1, Some [0x03, 0x00])"
    unfolding bt_poll_run [OF ne(1)] one by (simp add: respond_def btRespond_def)
  have p2: "bt_poll (map uint [0x03, rr, gg, bb]) ld0 d =
      ((show_leds (fill (Color rr gg bb) d))\<lparr>mode := BT\<rparr>, Some [0x03, 0x00])"
    unfolding bt_poll_run [OF ne(2)] full by (simp add: respond_def btRespond_def)
  have "(show_leds (fill (Color rr gg bb) d))\<lparr>mode := BT\<rparr> =
      d\<lparr>pixels := replicate (length (pixels d)) \<lparr>r = rr, g = gg, b = bb\<rparr>,
        shown := replicate (length (pixels d)) \<lparr>r = rr, g = gg, b = bb\<rparr>,
        mode := BT\<rparr>"
    by (simp add: fill_def show_leds_def unpack_Color)
  with p1 p2 show ?thesis by simp
qed

theorem set_leds_all_every_byte_witness:
  "3 \<le> length (replicate (LED_COUNT * 4) (7 :: 8 word)) \<and>
   bt_poll (map uint [0x03, 10 :: 8 word]) (replicate (LED_COUNT * 4) 7) dev_boot =
     (\<lparr>pixels = replicate LED_COUNT \<lparr>r = 10, g = 7, b = 7\<rparr>,
       shown = replicate LED_COUNT \<lparr>r = 10, g = 7, b = 7\<rparr>, mode = BT\<rparr>, Some [0x03, 0x00])"
proof -
  have h: "3 \<le> length (replicate (LED_COUNT * 4) (7 :: 8 word))"
    by (simp add: LED_COUNT_def)
  have "(show_leds (fill (Color 10 (replicate (LED_COUNT * 4) 7 ! 1) (replicate (LED_COUNT * 4) 7 ! 2))
          dev_boot))\<lparr>mode := BT\<rparr> =
      \<lparr>pixels = replicate LED_COUNT \<lparr>r = 10, g = 7, b = 7\<rparr>,
       shown = replicate LED_COUNT \<lparr>r = 10, g = 7, b = 7\<rparr>, mode = BT\<rparr>"
    by (simp add: fill_def show_leds_def unpack_Color dev_boot_def LED_COUNT_def)
  with set_leds_all_every_byte [OF h, of 10 dev_boot] h show ?thesis by simp
qed

section \<open>Properties of the button\<close>

lemma Button_read_window:
  "200 < now - read bs \<Longrightarrow>
   Button_read p now bs =
     (fst (win p (wasPressed bs, mayReturn bs)),
      \<lparr>read = now, wasPressed = fst (snd (win p (wasPressed bs, mayReturn bs))),
       mayReturn = snd (snd (win p (wasPressed bs, mayReturn bs)))\<rparr>)"
  by (cases bs) (auto simp: Button_read_def win_def Let_def)

lemma Button_read_early:
  "\<not> 200 < now - read bs \<Longrightarrow> Button_read p now bs = (RELEASED, bs)"
  by (simp add: Button_read_def)

lemma button_run_windowed:
  "windowed (read bs) cs \<Longrightarrow>
   fst (button_run cs bs) = fst (win_run (map fst cs) (wasPressed bs, mayReturn bs)) \<and>
   wasPressed (snd (button_run cs bs)) =
     fst (snd (win_run (map fst cs) (wasPressed bs, mayReturn bs))) \<and>
   mayReturn (snd (button_run cs bs)) =
     snd (snd (win_run (map fst cs) (wasPressed bs, mayReturn bs)))"
proof (induction cs arbitrary: bs)
  case Nil
  show ?case by simp
next
  case (Cons c cs)
  obtain p t where c: "c = (p, t)" by (cases c)
  have w: "200 < t - read bs" "windowed t cs" using Cons.prems by (simp_all add: c)
  obtain ev w1 m1 where wn: "win p (wasPressed bs, mayReturn bs) = (ev, w1, m1)"
    by (cases "win p (wasPressed bs, mayReturn bs)") auto
  let ?bs1 = "\<lparr>read = t, wasPressed = w1, mayReturn = m1\<rparr>"
  have rd: "Button_read p t bs = (ev, ?bs1)"
    by (simp add: Button_read_window [OF w(1)] wn)
  have "windowed (read ?bs1) cs" using w(2) by simp
  from Cons.IH [OF this] show ?case
    by (auto simp: c rd wn split: prod.splits)
qed

lemma win_run_append:
  "win_run (ps @ qs) wm =
     (case win_run ps wm of (evs, wm1) \<Rightarrow>
        (case win_run qs wm1 of (evs2, wm2) \<Rightarrow> (evs @ evs2, wm2)))"
  by (induction ps arbitrary: wm) (simp_all split: prod.splits)

lemma win_run_held: "win_run (replicate n True) (True, False) = (replicate n RELEASED, (True, False))"
  by (induction n) (simp_all add: win_def)

lemma win_run_idle: "win_run (replicate n False) (False, True) = (replicate n RELEASED, (False, True))"
  by (induction n) (simp_all add: win_def)

lemma win_run_idle_any:
  "win_run (replicate n False) (False, m) =
     (replicate n RELEASED, (False, if n = 0 then m else True))"
  by (cases n) (simp_all add: win_def win_run_idle)

lemma win_run_release_after_hold:
  "win_run (replicate n False) (True, False) =
     (replicate n RELEASED, (if n = 0 then (True, False) else if n = 1 then (False, False) else (False, True)))"
proof (cases n)
  case 0
  then show ?thesis by simp
next
  case (Suc n1)
  show ?thesis
  proof (cases n1)
    case 0
    then show ?thesis using Suc by (simp add: win_def)
  next
    case (Suc n2)
    then show ?thesis using \<open>n = Suc n1\<close> by (simp add: win_def win_run_idle)
  qed
qed

lemma win_run_hold:
  "2 \<le> k \<Longrightarrow>
   fst (win_run (replicate k True @ replicate j False) (False, m)) =
     RELEASED # PRESSED_CONTINUOUSLY # replicate (k - 2 + j) RELEASED"
proof -
  assume "2 \<le> k"
  then obtain k2 where k: "k = Suc (Suc k2)" by (metis Suc_le_D numeral_2_eq_2 Suc_le_mono)
  show ?thesis
    by (simp add: k win_def win_run_append win_run_held win_run_release_after_hold
        replicate_add [symmetric] del: replicate_add split: prod.splits)
qed

lemma win_run_short_press:
  "fst (win_run (True # replicate (Suc j) False) (False, m)) =
     RELEASED # PRESSED # replicate j RELEASED"
  by (simp add: win_def win_run_idle_any)

lemma win_run_two_released:
  "snd (win_run (replicate (Suc (Suc j)) False) (w, m)) = (False, True) \<and>
   last (fst (win_run (replicate (Suc (Suc j)) False) (w, m))) = RELEASED"
  by (cases w; cases m; cases j) (simp_all add: win_def win_run_idle)

text \<open>
  C8. For calls of \<^verbatim>\<open>Button::read\<close> with raw levels \<open>p\<close> at times \<open>now\<close>:
  a call made while no more than 200 ms have passed since the last evaluation returns
  \<^verbatim>\<open>RELEASED\<close> and leaves the hidden state as it is. For calls that each come more than
  200 ms after the one before: a hold seen in \<open>k \<ge> 2\<close> successive windows, starting from a
  window in which the button was not pressed, yields \<^verbatim>\<open>PRESSED_CONTINUOUSLY\<close> in exactly one
  window of the hold (the second) and \<^verbatim>\<open>RELEASED\<close> in all others, also in the windows of the
  release that follows; a press seen in exactly one window and then released yields
  \<^verbatim>\<open>PRESSED\<close> exactly once, in the window after the press; and from any hidden state, two
  or more windows with the button released end with a window that returns \<^verbatim>\<open>RELEASED\<close>,
  with \<open>wasPressed\<close> false and \<open>mayReturn\<close> true: reporting is armed for the next hold.
  After every evaluation \<open>wasPressed\<close> is the level just read, and it is false at the
  start, so every hold and every press begins in a state with \<open>wasPressed\<close> false.
\<close>

theorem button_debounce:
  "(\<not> 200 < now - read bs \<longrightarrow> Button_read p now bs = (RELEASED, bs)) \<and>
   (windowed (read bs) cs \<and> \<not> wasPressed bs \<and>
    map fst cs = replicate k True @ replicate j False \<and> 2 \<le> k \<longrightarrow>
      fst (button_run cs bs) =
        RELEASED # PRESSED_CONTINUOUSLY # replicate (k - 2 + j) RELEASED) \<and>
   (windowed (read bs) cs \<and> \<not> wasPressed bs \<and>
    map fst cs = True # replicate (Suc j) False \<longrightarrow>
      fst (button_run cs bs) = RELEASED # PRESSED # replicate j RELEASED) \<and>
   (windowed (read bs) cs \<and> map fst cs = replicate (Suc (Suc j)) False \<longrightarrow>
      last (fst (button_run cs bs)) = RELEASED \<and>
      \<not> wasPressed (snd (button_run cs bs)) \<and> mayReturn (snd (button_run cs bs))) \<and>
   (200 < now - read bs \<longrightarrow>
      wasPressed (snd (Button_read p now bs)) = p \<and> read (snd (Button_read p now bs)) = now) \<and>
   \<not> wasPressed (button_static_init now)"
proof -
  have c: "\<not> 200 < now - read bs \<longrightarrow> Button_read p now bs = (RELEASED, bs)"
    by (simp add: Button_read_early)
  have a: "windowed (read bs) cs \<and> \<not> wasPressed bs \<and>
    map fst cs = replicate k True @ replicate j False \<and> 2 \<le> k \<longrightarrow>
      fst (button_run cs bs) =
        RELEASED # PRESSED_CONTINUOUSLY # replicate (k - 2 + j) RELEASED"
  proof (intro impI, elim conjE)
    assume h: "windowed (read bs) cs" "\<not> wasPressed bs"
      "map fst cs = replicate k True @ replicate j False" "2 \<le> k"
    show "fst (button_run cs bs) =
        RELEASED # PRESSED_CONTINUOUSLY # replicate (k - 2 + j) RELEASED"
      using button_run_windowed [OF h(1)] h(2,3) win_run_hold [OF h(4), of j "mayReturn bs"]
      by simp
  qed
  have b: "windowed (read bs) cs \<and> \<not> wasPressed bs \<and>
    map fst cs = True # replicate (Suc j) False \<longrightarrow>
      fst (button_run cs bs) = RELEASED # PRESSED # replicate j RELEASED"
  proof (intro impI, elim conjE)
    assume h: "windowed (read bs) cs" "\<not> wasPressed bs"
      "map fst cs = True # replicate (Suc j) False"
    show "fst (button_run cs bs) = RELEASED # PRESSED # replicate j RELEASED"
      using button_run_windowed [OF h(1)] h(2,3) win_run_short_press [of j "mayReturn bs"]
      by simp
  qed
  have d: "windowed (read bs) cs \<and> map fst cs = replicate (Suc (Suc j)) False \<longrightarrow>
      last (fst (button_run cs bs)) = RELEASED \<and>
      \<not> wasPressed (snd (button_run cs bs)) \<and> mayReturn (snd (button_run cs bs))"
  proof (intro impI, elim conjE)
    assume h: "windowed (read bs) cs" "map fst cs = replicate (Suc (Suc j)) False"
    show "last (fst (button_run cs bs)) = RELEASED \<and>
      \<not> wasPressed (snd (button_run cs bs)) \<and> mayReturn (snd (button_run cs bs))"
      using button_run_windowed [OF h(1)] h(2)
        win_run_two_released [of j "wasPressed bs" "mayReturn bs"]
      by simp
  qed
  have e: "200 < now - read bs \<longrightarrow>
      wasPressed (snd (Button_read p now bs)) = p \<and> read (snd (Button_read p now bs)) = now"
    by (auto simp: Button_read_window win_def Let_def)
  have i: "\<not> wasPressed (button_static_init now)"
    by (simp add: button_static_init_def)
  show ?thesis by (rule conjI [OF c conjI [OF a conjI [OF b conjI [OF d conjI [OF e i]]]]])
qed

theorem button_debounce_witness:
  "Button_read True 100 (button_static_init 0) = (RELEASED, button_static_init 0) \<and>
   fst (button_run [(True, 300), (True, 600), (True, 900), (False, 1200)] (button_static_init 0)) =
     [RELEASED, PRESSED_CONTINUOUSLY, RELEASED, RELEASED] \<and>
   fst (button_run [(True, 300), (False, 600), (False, 900)] (button_static_init 0)) =
     [RELEASED, PRESSED, RELEASED] \<and>
   mayReturn (snd (button_run [(False, 300), (False, 600)]
     \<lparr>read = 0, wasPressed = True, mayReturn = False\<rparr>))"
proof -
  have "Button_read True 100 (button_static_init 0) = (RELEASED, button_static_init 0)"
    using button_debounce [of 100 "button_static_init 0" True]
    by (simp add: button_static_init_def)
  moreover have "fst (button_run [(True, 300), (True, 600), (True, 900), (False, 1200)]
      (button_static_init 0)) = [RELEASED, PRESSED_CONTINUOUSLY, RELEASED, RELEASED]"
    using button_debounce [of _ "button_static_init 0" _
        "[(True, 300), (True, 600), (True, 900), (False, 1200)]" 3 1]
    by (simp add: button_static_init_def numeral_3_eq_3)
  moreover have "fst (button_run [(True, 300), (False, 600), (False, 900)]
      (button_static_init 0)) = [RELEASED, PRESSED, RELEASED]"
    using button_debounce [of _ "button_static_init 0" _
        "[(True, 300), (False, 600), (False, 900)]" _ 1]
    by (simp add: button_static_init_def)
  moreover have "mayReturn (snd (button_run [(False, 300), (False, 600)]
     \<lparr>read = 0, wasPressed = True, mayReturn = False\<rparr>))"
    using button_debounce [of _ "\<lparr>read = 0, wasPressed = True, mayReturn = False\<rparr>" _
        "[(False, 300), (False, 600)]" _ 0]
    by simp
  ultimately show ?thesis by blast
qed

section \<open>Properties of the mode machine\<close>

lemma mode_handlers [simp]:
  "mode (setPixelColor n rr gg bb d) = mode d"
  "mode (fill c d) = mode d"
  "mode (clear d) = mode d"
  "mode (show_leds d) = mode d"
  by (simp_all add: setPixelColor_def fill_def clear_def show_leds_def)

lemma step_mode_BT: "mode d = BT \<Longrightarrow> mode (snd (step x f d)) = BT"
  by (cases "cmd f")
    (auto simp: step_def dispatch_def cmdSetLeds_def cmdSetLedsAll_def Let_def
      split: prod.splits if_splits)

lemma drain_mode_BT: "mode d = BT \<Longrightarrow> mode (snd (drain reads f d)) = BT"
proof (induction reads arbitrary: f d)
  case Nil
  then show ?case by simp
next
  case (Cons x xs)
  obtain f2 d2 where st: "step (word_of_int x) f d = (f2, d2)"
    by (cases "step (word_of_int x) f d")
  have "mode d2 = BT" using step_mode_BT [OF Cons.prems, of "word_of_int x" f] st by simp
  from Cons.IH [OF this, of f2] Cons.prems st show ?case by simp
qed

lemma bt_poll_mode_BT: "mode d = BT \<Longrightarrow> mode (fst (bt_poll reads ld0 d)) = BT"
  using drain_mode_BT [of d reads "frame_init ld0"]
  by (auto simp: bt_poll_def split: prod.splits option.splits)

lemma random_pixel_mode:
  "mode (snd (snd (random_pixel rnd i (a, pos, d)))) = mode d"
  by (simp add: random_pixel_def Let_def split: prod.splits)

lemma fold_random_pixel_mode:
  "mode (snd (snd (fold (random_pixel rnd) is (a, pos, d)))) = mode d"
proof (induction "is" arbitrary: a pos d)
  case Nil
  show ?case by simp
next
  case (Cons i "is")
  obtain a1 pos1 d1 where rp: "random_pixel rnd i (a, pos, d) = (a1, pos1, d1)"
    by (cases "random_pixel rnd i (a, pos, d)") auto
  have "mode d1 = mode d" using random_pixel_mode [of rnd i a pos d] rp by simp
  then show ?case using Cons.IH [of a1 pos1 d1] rp by simp
qed

lemma randomColors_mode: "mode (snd (snd (randomColors now rnd (a, pos, d)))) = mode d"
  using fold_random_pixel_mode [of rnd "[0..<LED_COUNT]" "a\<lparr>delay := now\<rparr>" pos d]
  by (auto simp: randomColors_def split: prod.splits)

lemma bt_poll_empty: "bt_poll [] ld0 d = (d, None)"
  by (simp add: bt_poll_def)

text \<open>
  C9. In every state of the firmware: the button switch of \<^verbatim>\<open>loop()\<close> sets the mode to
  \<^verbatim>\<open>RANDOM\<close> on \<^verbatim>\<open>PRESSED\<close> and to \<^verbatim>\<open>OFF\<close> on \<^verbatim>\<open>PRESSED_CONTINUOUSLY\<close>, whatever the
  mode was, and leaves it on \<^verbatim>\<open>RELEASED\<close>. A call of \<^verbatim>\<open>loop()\<close> with a \<^verbatim>\<open>PRESSED\<close> event
  does not sleep and, with no serial frame, ends in \<^verbatim>\<open>RANDOM\<close>; one with a
  \<^verbatim>\<open>PRESSED_CONTINUOUSLY\<close> event goes through the sleep branch, where the strip is cleared
  and shown before the wake-up sets \<^verbatim>\<open>RANDOM\<close>. A call that starts in mode \<^verbatim>\<open>BT\<close> and has
  no button event ends in mode \<^verbatim>\<open>BT\<close>, whatever arrives on the serial link, without
  sleeping and without running the animation.
\<close>

theorem mode_machine:
  "loop_button PRESSED m = RANDOM \<and>
   loop_button PRESSED_CONTINUOUSLY m = OFF \<and>
   loop_button RELEASED m = m \<and>
   (fst (Button_read pressed now (button fw)) = PRESSED \<longrightarrow>
      \<not> slept (snd (loop pressed now rnd reads ld0 fw)) \<and>
      mode (dev (fst (loop pressed now rnd [] ld0 fw))) = RANDOM) \<and>
   (fst (Button_read pressed now (button fw)) = PRESSED_CONTINUOUSLY \<longrightarrow>
      slept (snd (loop pressed now rnd reads ld0 fw)) \<and>
      dev (fst (loop pressed now rnd [] ld0 fw)) =
        (show_leds (clear (dev fw)))\<lparr>mode := RANDOM\<rparr>) \<and>
   (mode (dev fw) = BT \<and> fst (Button_read pressed now (button fw)) = RELEASED \<longrightarrow>
      mode (dev (fst (loop pressed now rnd reads ld0 fw))) = BT \<and>
      \<not> slept (snd (loop pressed now rnd reads ld0 fw)) \<and>
      anim (fst (loop pressed now rnd reads ld0 fw)) = anim fw)"
proof -
  obtain ev bs1 where rd: "Button_read pressed now (button fw) = (ev, bs1)"
    by (cases "Button_read pressed now (button fw)")
  have b: "loop_button PRESSED m = RANDOM" "loop_button PRESSED_CONTINUOUSLY m = OFF"
    "loop_button RELEASED m = m"
    by (simp_all add: loop_button_def)
  have p: "\<not> slept (snd (loop pressed now rnd reads ld0 fw)) \<and>
      mode (dev (fst (loop pressed now rnd [] ld0 fw))) = RANDOM" if "ev = PRESSED"
    using randomColors_mode [of now rnd "anim fw" "rnd_pos fw" "(dev fw)\<lparr>mode := RANDOM\<rparr>"]
    by (auto simp: loop_def rd that loop_button_def loop_mode_def bt_poll_empty Let_def
        split: prod.splits)
  have c: "slept (snd (loop pressed now rnd reads ld0 fw)) \<and>
      dev (fst (loop pressed now rnd [] ld0 fw)) =
        (show_leds (clear (dev fw)))\<lparr>mode := RANDOM\<rparr>" if "ev = PRESSED_CONTINUOUSLY"
    by (auto simp: loop_def rd that loop_button_def loop_mode_def bt_poll_empty Let_def
        clear_def show_leds_def split: prod.splits)
  have s: "mode (dev (fst (loop pressed now rnd reads ld0 fw))) = BT \<and>
      \<not> slept (snd (loop pressed now rnd reads ld0 fw)) \<and>
      anim (fst (loop pressed now rnd reads ld0 fw)) = anim fw"
    if "mode (dev fw) = BT" "ev = RELEASED"
    using bt_poll_mode_BT [of "(dev fw)\<lparr>mode := BT\<rparr>" reads ld0]
    by (auto simp: loop_def rd that loop_button_def loop_mode_def Let_def split: prod.splits)
  from b p c s rd show ?thesis by simp
qed

theorem mode_machine_witness:
  "fst (Button_read False 300 \<lparr>read = 0, wasPressed = True, mayReturn = True\<rparr>) = PRESSED \<and>
   mode (dev (fst (loop False 300 (\<lambda>n. n) [] []
     ((fw_boot 0)\<lparr>button := \<lparr>read = 0, wasPressed = True, mayReturn = True\<rparr>,
                  dev := dev_boot\<lparr>mode := BT\<rparr>\<rparr>)))) = RANDOM \<and>
   fst (Button_read True 300 \<lparr>read = 0, wasPressed = True, mayReturn = True\<rparr>) =
     PRESSED_CONTINUOUSLY \<and>
   slept (snd (loop True 300 (\<lambda>n. n) [] []
     ((fw_boot 0)\<lparr>button := \<lparr>read = 0, wasPressed = True, mayReturn = True\<rparr>,
                  dev := dev_boot\<lparr>mode := BT\<rparr>\<rparr>))) \<and>
   mode (dev (fw_boot 0\<lparr>dev := dev_boot\<lparr>mode := BT\<rparr>\<rparr>)) = BT \<and>
   fst (Button_read False 100 (button (fw_boot 0\<lparr>dev := dev_boot\<lparr>mode := BT\<rparr>\<rparr>))) = RELEASED \<and>
   mode (dev (fst (loop False 100 (\<lambda>n. n) (map uint [0x01 :: 8 word]) (replicate 256 0)
     (fw_boot 0\<lparr>dev := dev_boot\<lparr>mode := BT\<rparr>\<rparr>)))) = BT"
proof -
  let ?bs = "\<lparr>read = 0, wasPressed = True, mayReturn = True\<rparr>"
  let ?fw1 = "(fw_boot 0)\<lparr>button := ?bs, dev := dev_boot\<lparr>mode := BT\<rparr>\<rparr>"
  let ?fw2 = "fw_boot 0\<lparr>dev := dev_boot\<lparr>mode := BT\<rparr>\<rparr>"
  have h1: "fst (Button_read False 300 (button ?fw1)) = PRESSED"
    by (simp add: Button_read_def)
  have h2: "fst (Button_read True 300 (button ?fw1)) = PRESSED_CONTINUOUSLY"
    by (simp add: Button_read_def)
  have h3: "mode (dev ?fw2) = BT" by simp
  have h4: "fst (Button_read False 100 (button ?fw2)) = RELEASED"
    by (simp add: Button_read_def fw_boot_def button_static_init_def)
  have c1: "mode (dev (fst (loop False 300 (\<lambda>n. n) [] [] ?fw1))) = RANDOM"
    using mode_machine [of _ False 300 ?fw1 "\<lambda>n. n" "[]" "[]"] h1 by blast
  have c2: "slept (snd (loop True 300 (\<lambda>n. n) [] [] ?fw1))"
    using mode_machine [of _ True 300 ?fw1 "\<lambda>n. n" "[]" "[]"] h2 by blast
  have c3: "mode (dev (fst (loop False 100 (\<lambda>n. n) (map uint [0x01 :: 8 word])
      (replicate 256 0) ?fw2))) = BT"
    using mode_machine [of _ False 100 ?fw2 "\<lambda>n. n" "map uint [0x01 :: 8 word]"
        "replicate 256 0"] h3 h4
    by blast
  from h1 h2 h3 h4 c1 c2 c3 show ?thesis by simp
qed

end
